theory Spec2Isabelle
  imports Main "HOL-Library.Word" "HOL-Library.Multiset"
begin

unbundle bit_operations_syntax

section \<open>The resource table of resourceLib.h\<close>

text \<open>
  A shallow embedding of \<^verbatim>\<open>src/libCom/cxxTemplates/resourceLib.h\<close>: the class template
  \<^verbatim>\<open>resTable<T,ID>\<close> with its linear-hashing growth, the integer and string identifier
  classes, and \<^verbatim>\<open>chronIntIdResTable\<close>.

  Conventions of the embedding.
  \<^item> A C++ \<^verbatim>\<open>unsigned\<close> is a natural number below \<open>2 ^ 32\<close>; every \<^verbatim>\<open>++\<close>, \<^verbatim>\<open>--\<close> and
    \<^verbatim>\<open>+\<close> of the source on such a value is written with its reduction modulo \<open>2 ^ 32\<close>
    (\<open>u32\<close>). The identifiers of the chronological table, whose wrap-around is part of what
    is verified, are \<open>32 word\<close>.
  \<^item> A resource of class \<^verbatim>\<open>T\<close> (which derives from \<^verbatim>\<open>ID\<close>) is a pair of its identifier
    and the rest of the object. The identifier class contributes two functions that are
    parameters of every table operation: \<open>H\<close>, its \<^verbatim>\<open>hash ()\<close>, and \<open>E\<close>, its
    \<^verbatim>\<open>operator ==\<close>.
  \<^item> The bucket array \<^verbatim>\<open>pTable\<close> is \<open>None\<close> for the null pointer and otherwise the list
    of its buckets.
  \<^item> \<^verbatim>\<open>::operator new\<close> may throw. Whether the allocation of a call succeeds is an input
    of the operation (\<open>allocOk\<close>); an exception that leaves the operation is the result
    \<open>Inl BadAlloc\<close>.
\<close>

subsection \<open>Unsigned arithmetic\<close>

definition u32 :: "nat \<Rightarrow> nat" where
  "u32 n = n mod 4294967296"

subsection \<open>The singly linked list\<close>

text \<open>
  Modelled from the spec: \<^verbatim>\<open>tsSLList.h\<close> is included by resourceLib.h but is not among the
  sources. A bucket is a chain of entries; \<^verbatim>\<open>add\<close> links an entry in at the beginning of
  the chain, \<^verbatim>\<open>get\<close> unlinks the first entry, \<^verbatim>\<open>remove (prev)\<close> unlinks the entry after
  \<^verbatim>\<open>prev\<close>, and constructing a list from another one hands the whole chain over and
  leaves the other list empty (the split "takes the single bucket" and "redistributes that
  bucket's entries").
\<close>

type_synonym 'a tsSLList = "'a list"

definition tsSLList_add :: "'a \<Rightarrow> 'a tsSLList \<Rightarrow> 'a tsSLList" where
  "tsSLList_add item list = item # list"

definition tsSLList_get :: "'a tsSLList \<Rightarrow> 'a option \<times> 'a tsSLList" where
  "tsSLList_get list = (case list of [] \<Rightarrow> (None, []) | item # rest \<Rightarrow> (Some item, rest))"

subsection \<open>The table\<close>

datatype error = BadAlloc | NullTable

record ('id, 'v) resTable =
  pTable :: "('id \<times> 'v) tsSLList list option"
  nextSplitIndex :: nat
  hashIxMask :: nat
  hashIxSplitMask :: nat
  nBitsHashIxSplitMask :: nat
  logBaseTwoTableSize :: nat
  nInUse :: nat

text \<open>The constructor \<^verbatim>\<open>resTable::resTable ()\<close>.\<close>

definition resTable_new :: "('id, 'v) resTable" where
  "resTable_new = \<lparr> pTable = None, nextSplitIndex = 0, hashIxMask = 0, hashIxSplitMask = 0,
     nBitsHashIxSplitMask = 0, logBaseTwoTableSize = 0, nInUse = 0 \<rparr>"

text \<open>
  \<^verbatim>\<open>( 1 << nBits ) - 1\<close>, truncated to 32 bits. The C++ expression is computed in \<^verbatim>\<open>int\<close>
  and is defined for \<open>nBits \<le> 30\<close> only; the theorems below keep \<open>nBits\<close> in that range.
\<close>

definition resTableBitMask :: "nat \<Rightarrow> nat" where
  "resTableBitMask nBits = u32 (u32 (2 ^ nBits) + 4294967295)"

definition numEntriesInstalled :: "('id, 'v) resTable \<Rightarrow> nat" where
  "numEntriesInstalled t = nInUse t"

definition tableSize :: "('id, 'v) resTable \<Rightarrow> nat" where
  "tableSize t =
     (if pTable t \<noteq> None then u32 (u32 (hashIxMask t + 1) + nextSplitIndex t) else 0)"

text \<open>\<^verbatim>\<open>resTable::hash\<close>: the bucket index of an identifier under the current split state.\<close>

definition hash :: "('id \<Rightarrow> nat) \<Rightarrow> ('id, 'v) resTable \<Rightarrow> 'id \<Rightarrow> nat" where
  "hash H t idIn =
     (let h = H idIn;
          h0 = h AND hashIxMask t
      in if h0 \<ge> nextSplitIndex t then h0 else h AND hashIxSplitMask t)"

text \<open>\<^verbatim>\<open>resTable::find\<close>: the first entry of a chain whose identifier equals \<open>idIn\<close>.\<close>

fun find_res :: "('id \<Rightarrow> 'id \<Rightarrow> bool) \<Rightarrow> ('id \<times> 'v) tsSLList \<Rightarrow> 'id \<Rightarrow> ('id \<times> 'v) option" where
  "find_res E [] idIn = None"
| "find_res E (item # rest) idIn = (if E (fst item) idIn then Some item else find_res E rest idIn)"

definition lookup ::
  "('id \<Rightarrow> nat) \<Rightarrow> ('id \<Rightarrow> 'id \<Rightarrow> bool) \<Rightarrow> 'id \<Rightarrow> ('id, 'v) resTable \<Rightarrow> ('id \<times> 'v) option" where
  "lookup H E idIn t =
     (case pTable t of
        Some tbl \<Rightarrow> find_res E (tbl ! hash H t idIn) idIn
      | None \<Rightarrow> None)"

text \<open>
  The loop of \<^verbatim>\<open>resTable::remove\<close>: unlink the first match of the chain and return it with
  the remaining chain.
\<close>

fun removeFirst ::
  "('id \<Rightarrow> 'id \<Rightarrow> bool) \<Rightarrow> ('id \<times> 'v) tsSLList \<Rightarrow> 'id \<Rightarrow> ('id \<times> 'v) option \<times> ('id \<times> 'v) tsSLList" where
  "removeFirst E [] idIn = (None, [])"
| "removeFirst E (item # rest) idIn =
     (if E (fst item) idIn then (Some item, rest)
      else (case removeFirst E rest idIn of (r, rest') \<Rightarrow> (r, item # rest')))"

definition remove ::
  "('id \<Rightarrow> nat) \<Rightarrow> ('id \<Rightarrow> 'id \<Rightarrow> bool) \<Rightarrow> 'id \<Rightarrow> ('id, 'v) resTable
     \<Rightarrow> ('id \<times> 'v) option \<times> ('id, 'v) resTable" where
  "remove H E idIn t =
     (case pTable t of
        Some tbl \<Rightarrow>
          (let i = hash H t idIn in
           case removeFirst E (tbl ! i) idIn of
             (None, _) \<Rightarrow> (None, t)
           | (Some item, list') \<Rightarrow>
               (Some item, t \<lparr> pTable := Some (tbl [i := list']),
                               nInUse := u32 (nInUse t + 4294967295) \<rparr>))
      | None \<Rightarrow> (None, t))"

text \<open>
  \<^verbatim>\<open>resTable::setTableSizePrivate\<close>. The result \<open>Inr (success, t')\<close> is a normal return;
  \<open>Inl BadAlloc\<close> is the exception rethrown when there is no table yet. The first
  \<^verbatim>\<open>tableSize ()\<close> buckets are handed over to the new array, the others start empty.
\<close>

definition setTableSizePrivate ::
  "bool \<Rightarrow> nat \<Rightarrow> ('id, 'v) resTable \<Rightarrow> error + (bool \<times> ('id, 'v) resTable)" where
  "setTableSizePrivate allocOk logBaseTwoTableSizeIn t =
     (if logBaseTwoTableSize t \<ge> logBaseTwoTableSizeIn then Inr (True, t)
      else
        let lg = (if logBaseTwoTableSizeIn < 4 then 4 else logBaseTwoTableSizeIn);
            newTableSize = u32 (2 ^ lg);
            oldTableOccupiedSize = tableSize t
        in if \<not> allocOk then (if pTable t = None then Inl BadAlloc else Inr (False, t))
           else
             let pNewTable = (case pTable t of
                                Some tbl \<Rightarrow> take oldTableOccupiedSize tbl
                              | None \<Rightarrow> [])
                             @ replicate (newTableSize - oldTableOccupiedSize) [];
                 t1 = (if pTable t = None
                       then t \<lparr> hashIxSplitMask := resTableBitMask lg,
                                nBitsHashIxSplitMask := lg,
                                hashIxMask := resTableBitMask lg div 2,
                                nextSplitIndex := 0 \<rparr>
                       else t)
             in Inr (True, t1 \<lparr> pTable := Some pNewTable, logBaseTwoTableSize := lg \<rparr>))"

text \<open>
  The loop of \<^verbatim>\<open>resTable::setTableSize\<close> that counts the bits of \<open>newMask\<close>;
  \<open>4294967295 - m\<close> is the 32-bit complement \<^verbatim>\<open>~m\<close>.
\<close>

function countBits :: "nat \<Rightarrow> nat \<Rightarrow> nat" where
  "countBits newMask nbits =
     (if nbits < 32 then
        (if newMask AND (4294967295 - resTableBitMask nbits) = 0 then nbits
         else countBits newMask (nbits + 1))
      else nbits)"
  by pat_completeness auto
termination
  by (relation "measure (\<lambda>(newMask, nbits). 32 - nbits)") auto

declare countBits.simps [simp del]

definition setTableSize ::
  "bool \<Rightarrow> nat \<Rightarrow> ('id, 'v) resTable \<Rightarrow> error + ('id, 'v) resTable" where
  "setTableSize allocOk newTableSize t =
     (if newTableSize = 0 then Inr t
      else
        let newMask = newTableSize - 1;
            nbits = countBits newMask 0
        in case setTableSizePrivate allocOk nbits t of
             Inl e \<Rightarrow> Inl e
           | Inr (_, t') \<Rightarrow> Inr t')"

text \<open>
  The loop of \<^verbatim>\<open>resTable::splitBucket\<close>: every entry taken from the split bucket is linked
  into the bucket it hashes to under the updated split state.
\<close>

fun rehash :: "('id \<Rightarrow> nat) \<Rightarrow> ('id \<times> 'v) tsSLList \<Rightarrow> ('id, 'v) resTable \<Rightarrow> ('id, 'v) resTable" where
  "rehash H [] t = t"
| "rehash H (item # tmp) t =
     (let index = hash H t (fst item)
      in rehash H tmp
           (t \<lparr> pTable := map_option (\<lambda>tbl. tbl [index := tsSLList_add item (tbl ! index)])
                            (pTable t) \<rparr>))"

definition splitBucket ::
  "('id \<Rightarrow> nat) \<Rightarrow> bool \<Rightarrow> ('id, 'v) resTable \<Rightarrow> error + ('id, 'v) resTable" where
  "splitBucket H allocOk t =
     (let grown =
        (if nextSplitIndex t > hashIxMask t then
           (case setTableSizePrivate allocOk (u32 (nBitsHashIxSplitMask t + 1)) t of
              Inl e \<Rightarrow> Inl e
            | Inr (success, t1) \<Rightarrow>
                if \<not> success then Inr (False, t1)
                else
                  let nBits = u32 (nBitsHashIxSplitMask t1 + 1)
                  in Inr (True, t1 \<lparr> nBitsHashIxSplitMask := nBits,
                                     hashIxSplitMask := resTableBitMask nBits,
                                     hashIxMask := resTableBitMask nBits div 2,
                                     nextSplitIndex := 0 \<rparr>))
         else Inr (True, t))
      in case grown of
           Inl e \<Rightarrow> Inl e
         | Inr (False, t1) \<Rightarrow> Inr t1
         | Inr (True, t2) \<Rightarrow>
             (case pTable t2 of
                None \<Rightarrow> Inl NullTable
              | Some tbl \<Rightarrow>
                  let tmp = tbl ! nextSplitIndex t2;
                      t3 = t2 \<lparr> pTable := Some (tbl [nextSplitIndex t2 := []]),
                               nextSplitIndex := u32 (nextSplitIndex t2 + 1) \<rparr>
                  in Inr (rehash H tmp t3)))"

text \<open>
  The tail of \<^verbatim>\<open>resTable::add\<close>: look for a duplicate in the target bucket, otherwise
  link the entry in. The status is \<open>-1\<close> (the identifier exists in the table) or \<open>0\<close>.
\<close>

definition addToBucket ::
  "('id \<Rightarrow> nat) \<Rightarrow> ('id \<Rightarrow> 'id \<Rightarrow> bool) \<Rightarrow> ('id \<times> 'v) \<Rightarrow> ('id, 'v) resTable
     \<Rightarrow> error + (int \<times> ('id, 'v) resTable)" where
  "addToBucket H E res t =
     (case pTable t of
        None \<Rightarrow> Inl NullTable
      | Some tbl \<Rightarrow>
          let i = hash H t (fst res) in
          if find_res E (tbl ! i) (fst res) \<noteq> None then Inr (- 1, t)
          else Inr (0, t \<lparr> pTable := Some (tbl [i := tsSLList_add res (tbl ! i)]),
                           nInUse := u32 (nInUse t + 1) \<rparr>))"

definition add ::
  "('id \<Rightarrow> nat) \<Rightarrow> ('id \<Rightarrow> 'id \<Rightarrow> bool) \<Rightarrow> bool \<Rightarrow> ('id \<times> 'v) \<Rightarrow> ('id, 'v) resTable
     \<Rightarrow> error + (int \<times> ('id, 'v) resTable)" where
  "add H E allocOk res t =
     (if pTable t = None then
        (case setTableSizePrivate allocOk 10 t of
           Inl e \<Rightarrow> Inl e
         | Inr (_, t1) \<Rightarrow> addToBucket H E res t1)
      else if nInUse t \<ge> tableSize t then
        (case splitBucket H allocOk t of
           Inl e \<Rightarrow> Inl e
         | Inr t1 \<Rightarrow>
             (case pTable t1 of
                None \<Rightarrow> Inl NullTable
              | Some tbl \<Rightarrow>
                  if find_res E (tbl ! hash H t1 (fst res)) (fst res) \<noteq> None then Inr (- 1, t1)
                  else addToBucket H E res t1))
      else addToBucket H E res t)"

text \<open>
  \<^verbatim>\<open>resTable::traverse\<close> calls a member function of every entry, bucket by bucket over the
  first \<^verbatim>\<open>tableSize ()\<close> buckets. The callback is a function on a state of the caller's;
  the table itself is not written by the traversal.
\<close>

definition entries :: "('id, 'v) resTable \<Rightarrow> ('id \<times> 'v) list" where
  "entries t =
     (case pTable t of
        None \<Rightarrow> []
      | Some tbl \<Rightarrow> concat (map (\<lambda>i. tbl ! i) [0 ..< tableSize t]))"

definition traverse ::
  "(('id \<times> 'v) \<Rightarrow> 's \<Rightarrow> 's) \<Rightarrow> ('id, 'v) resTable \<Rightarrow> 's \<Rightarrow> 's \<times> ('id, 'v) resTable" where
  "traverse pCB t s = (fold pCB (entries t) s, t)"

section \<open>Well-formed tables and the bucket index\<close>

text \<open>
  The split state of a table with storage: \<open>hashIxSplitMask\<close> masks
  \<open>nBitsHashIxSplitMask\<close> bits, \<open>hashIxMask\<close> one bit less, the split index does not
  pass the half table, and the bucket array has \<open>2 ^ logBaseTwoTableSize\<close> buckets. The
  bound \<open>30\<close> keeps \<^verbatim>\<open>1 << n\<close> within \<^verbatim>\<open>int\<close>. Without storage every field is zero, as
  \<^verbatim>\<open>verify\<close> asserts.
\<close>

definition wellFormed :: "('id, 'v) resTable \<Rightarrow> bool" where
  "wellFormed t =
     (case pTable t of
        None \<Rightarrow> nextSplitIndex t = 0 \<and> hashIxMask t = 0 \<and> hashIxSplitMask t = 0 \<and>
                nBitsHashIxSplitMask t = 0 \<and> logBaseTwoTableSize t = 0
      | Some tbl \<Rightarrow>
          4 \<le> nBitsHashIxSplitMask t \<and> nBitsHashIxSplitMask t \<le> logBaseTwoTableSize t \<and>
          logBaseTwoTableSize t \<le> 30 \<and>
          hashIxSplitMask t = 2 ^ nBitsHashIxSplitMask t - 1 \<and>
          hashIxMask t = 2 ^ (nBitsHashIxSplitMask t - 1) - 1 \<and>
          nextSplitIndex t \<le> 2 ^ (nBitsHashIxSplitMask t - 1) \<and>
          length tbl = 2 ^ logBaseTwoTableSize t)"

lemma u32_id: "n < 4294967296 \<Longrightarrow> u32 n = n"
  by (simp add: u32_def)

lemma pow_le_30: "n \<le> 30 \<Longrightarrow> (2::nat) ^ n \<le> 1073741824"
proof -
  assume "n \<le> 30"
  then have "(2::nat) ^ n \<le> 2 ^ 30" by (intro power_increasing) simp_all
  then show ?thesis by simp
qed

lemma u32_minus_one:
  assumes "0 < x" "x < 4294967296"
  shows "u32 (x + 4294967295) = x - 1"
proof -
  obtain y where y: "x = Suc y" using assms(1) by (cases x) simp_all
  have "Suc y + 4294967295 = y + 4294967296" by simp
  then have "u32 (x + 4294967295) = (y + 4294967296) mod 4294967296"
    unfolding u32_def y by (rule arg_cong)
  also have "\<dots> = y mod 4294967296" by (rule mod_add_self2)
  also have "\<dots> = y" using assms(2) y by simp
  finally show ?thesis using y by simp
qed

lemma resTableBitMask_eq: "n \<le> 30 \<Longrightarrow> resTableBitMask n = 2 ^ n - 1"
proof -
  assume n: "n \<le> 30"
  have p: "(2::nat) ^ n \<le> 1073741824" using n by (rule pow_le_30)
  have q: "(2::nat) ^ n > 0" by simp
  have r: "(2::nat) ^ n < 4294967296" using p by linarith
  have "u32 (2 ^ n) = 2 ^ n" using r by (rule u32_id)
  then show ?thesis unfolding resTableBitMask_def using u32_minus_one [OF q r] by simp
qed

lemma and_mask_mod: "(h::nat) AND (2 ^ k - 1) = h mod 2 ^ k"
proof -
  have "h AND mask k = take_bit k h" by (simp only: take_bit_eq_mask)
  then show ?thesis by (simp only: mask_eq_exp_minus_1 take_bit_eq_mod)
qed

lemma mod_double: "(h::nat) mod (2 * m) = h mod m \<or> h mod (2 * m) = h mod m + m"
proof -
  have "h mod (2 * m) = h mod m + m * (h div m mod 2)"
    by (simp add: mod_mult2_eq mult.commute)
  moreover have "h div m mod 2 = 0 \<or> h div m mod 2 = 1" by auto
  ultimately show ?thesis by auto
qed

lemma pow_pred_double: "0 < k \<Longrightarrow> (2::nat) ^ k = 2 * 2 ^ (k - 1)"
  by (cases k) simp_all


lemma wfD:
  assumes "wellFormed t" "pTable t = Some tbl"
  shows "4 \<le> nBitsHashIxSplitMask t"
    and "nBitsHashIxSplitMask t \<le> logBaseTwoTableSize t"
    and "logBaseTwoTableSize t \<le> 30"
    and "hashIxSplitMask t = 2 ^ nBitsHashIxSplitMask t - 1"
    and "hashIxMask t = 2 ^ (nBitsHashIxSplitMask t - 1) - 1"
    and "nextSplitIndex t \<le> 2 ^ (nBitsHashIxSplitMask t - 1)"
    and "length tbl = 2 ^ logBaseTwoTableSize t"
  using assms by (simp_all add: wellFormed_def)

text \<open>The bucket index as arithmetic.\<close>

definition bucketOf :: "nat \<Rightarrow> nat \<Rightarrow> nat \<Rightarrow> nat" where
  "bucketOf m n h = (if h mod m \<ge> n then h mod m else h mod (2 * m))"

lemma hash_bucketOf:
  assumes "wellFormed t" "pTable t = Some tbl"
  shows "hash H t i = bucketOf (2 ^ (nBitsHashIxSplitMask t - 1)) (nextSplitIndex t) (H i)"
proof -
  have k: "0 < nBitsHashIxSplitMask t" using wfD(1) [OF assms] by simp
  have a: "H i AND hashIxMask t = H i mod 2 ^ (nBitsHashIxSplitMask t - 1)"
    by (simp only: wfD(5) [OF assms] and_mask_mod)
  have "H i AND hashIxSplitMask t = H i mod 2 ^ nBitsHashIxSplitMask t"
    by (simp only: wfD(4) [OF assms] and_mask_mod)
  then have b: "H i AND hashIxSplitMask t = H i mod (2 * 2 ^ (nBitsHashIxSplitMask t - 1))"
    using pow_pred_double [OF k] by simp
  show ?thesis
    unfolding hash_def bucketOf_def Let_def a b by simp
qed

lemma bucketOf_less: "0 < m \<Longrightarrow> n \<le> m \<Longrightarrow> bucketOf m n h < m + n"
proof -
  assume m: "0 < m" and n: "n \<le> m"
  have lt: "h mod m < m" using m by simp
  show ?thesis
  proof (cases "h mod m \<ge> n")
    case True
    then show ?thesis using lt by (simp add: bucketOf_def)
  next
    case False
    then have "h mod (2 * m) \<le> h mod m + m" using mod_double [of h m] by linarith
    then show ?thesis using False by (simp add: bucketOf_def)
  qed
qed

lemma bucketOf_step_other:
  "bucketOf m n h \<noteq> n \<Longrightarrow> bucketOf m (Suc n) h = bucketOf m n h"
  by (simp add: bucketOf_def split: if_splits)

lemma bucketOf_eq_split:
  assumes "0 < m" "n < m" "bucketOf m n h = n"
  shows "h mod m = n"
proof (rule ccontr)
  assume ne: "h mod m \<noteq> n"
  then have lt: "h mod m < n" and e: "h mod (2 * m) = n"
    using assms(3) by (simp_all add: bucketOf_def split: if_splits)
  from mod_double [of h m] e lt assms(2) show False by linarith
qed

lemma bucketOf_step_split:
  assumes "0 < m" "n < m" "bucketOf m n h = n"
  shows "bucketOf m (Suc n) h = n \<or> bucketOf m (Suc n) h = n + m"
proof -
  have "h mod m = n" using assms by (rule bucketOf_eq_split)
  then show ?thesis using mod_double [of h m] by (simp add: bucketOf_def)
qed

lemma bucketOf_double: "0 < m \<Longrightarrow> bucketOf (2 * m) 0 h = bucketOf m m h"
proof -
  assume "0 < m"
  then have "h mod m < m" by simp
  then show ?thesis by (simp add: bucketOf_def)
qed

lemma tableSize_wf:
  assumes "wellFormed t" "pTable t = Some tbl"
  shows "tableSize t = 2 ^ (nBitsHashIxSplitMask t - 1) + nextSplitIndex t"
proof -
  have a: "nBitsHashIxSplitMask t - 1 \<le> 30"
    using wfD(2,3) [OF assms] by linarith
  have b: "nextSplitIndex t \<le> 2 ^ (nBitsHashIxSplitMask t - 1)" by (rule wfD(6) [OF assms])
  have c: "hashIxMask t + 1 = 2 ^ (nBitsHashIxSplitMask t - 1)"
    by (simp add: wfD(5) [OF assms])
  have d: "(2::nat) ^ (nBitsHashIxSplitMask t - 1) \<le> 1073741824" using a by (rule pow_le_30)
  have "u32 (hashIxMask t + 1) = 2 ^ (nBitsHashIxSplitMask t - 1)"
    unfolding c using d by (simp add: u32_id)
  moreover have "u32 (2 ^ (nBitsHashIxSplitMask t - 1) + nextSplitIndex t)
      = 2 ^ (nBitsHashIxSplitMask t - 1) + nextSplitIndex t"
    using b d by (simp add: u32_id)
  ultimately show ?thesis using assms(2) by (simp add: tableSize_def)
qed

lemma tableSize_le_length:
  assumes "wellFormed t" "pTable t = Some tbl"
  shows "tableSize t \<le> length tbl"
proof -
  have k: "0 < nBitsHashIxSplitMask t" using wfD(1) [OF assms] by simp
  have "tableSize t \<le> 2 * 2 ^ (nBitsHashIxSplitMask t - 1)"
    using wfD(6) [OF assms] by (simp add: tableSize_wf [OF assms])
  also have "\<dots> = 2 ^ nBitsHashIxSplitMask t" using pow_pred_double [OF k] by simp
  also have "\<dots> \<le> 2 ^ logBaseTwoTableSize t"
    using wfD(2) [OF assms] by (intro power_increasing) simp_all
  finally show ?thesis by (simp add: wfD(7) [OF assms])
qed

lemma hash_less_tableSize:
  assumes "wellFormed t" "pTable t = Some tbl"
  shows "hash H t i < tableSize t"
proof -
  have "bucketOf (2 ^ (nBitsHashIxSplitMask t - 1)) (nextSplitIndex t) (H i)
          < 2 ^ (nBitsHashIxSplitMask t - 1) + nextSplitIndex t"
    using wfD(6) [OF assms] by (intro bucketOf_less) simp_all
  then show ?thesis by (simp add: hash_bucketOf [OF assms] tableSize_wf [OF assms])
qed


section \<open>The structural invariant\<close>

text \<open>
  Every entry sits in the bucket its identifier hashes to, no identifier occurs twice, and
  \<open>nInUse\<close> counts the entries. The count stays within \<open>2 ^ 30\<close>, where the 32-bit
  arithmetic of the table does not wrap.
\<close>

definition bucketsOk :: "('id \<Rightarrow> nat) \<Rightarrow> ('id, 'v) resTable \<Rightarrow> ('id \<times> 'v) tsSLList list \<Rightarrow> bool" where
  "bucketsOk H t tbl = (\<forall>i < length tbl. \<forall>x \<in> set (tbl ! i). hash H t (fst x) = i)"

definition tableInv :: "('id \<Rightarrow> nat) \<Rightarrow> ('id, 'v) resTable \<Rightarrow> bool" where
  "tableInv H t =
     (wellFormed t \<and>
      (case pTable t of
         None \<Rightarrow> nInUse t = 0
       | Some tbl \<Rightarrow> bucketsOk H t tbl \<and> distinct (map fst (concat tbl)) \<and>
                     nInUse t = length (concat tbl) \<and> nInUse t \<le> 1073741824))"

lemma mset_concat_update:
  assumes "i < length tbl"
  shows "mset (concat (tbl [i := ys])) + mset (tbl ! i) = mset (concat tbl) + mset ys"
proof -
  have a: "tbl = take i tbl @ (tbl ! i) # drop (Suc i) tbl"
    using assms by (rule id_take_nth_drop)
  have b: "tbl [i := ys] = take i tbl @ ys # drop (Suc i) tbl"
    using assms by (rule upd_conv_take_nth_drop)
  have "mset (concat tbl) = mset (concat (take i tbl)) + mset (tbl ! i) + mset (concat (drop (Suc i) tbl))"
    by (subst a) simp
  moreover have "mset (concat (tbl [i := ys])) = mset (concat (take i tbl)) + mset ys + mset (concat (drop (Suc i) tbl))"
    by (subst b) simp
  ultimately show ?thesis by simp
qed

lemma mset_concat_push:
  assumes "i < length tbl"
  shows "mset (concat (tbl [i := x # tbl ! i])) = add_mset x (mset (concat tbl))"
  using mset_concat_update [OF assms, of "x # tbl ! i"] by simp

lemma hash_cong:
  assumes "hashIxMask t' = hashIxMask t" "hashIxSplitMask t' = hashIxSplitMask t"
    "nextSplitIndex t' = nextSplitIndex t"
  shows "hash H t' = hash H t"
  using assms by (intro ext) (simp add: hash_def Let_def)

lemma hash_pTable_update [simp]: "hash H (t \<lparr> pTable := p \<rparr>) = hash H t"
  by (rule ext) (simp add: hash_def Let_def)

lemma hash_nInUse_update [simp]: "hash H (t \<lparr> nInUse := n \<rparr>) = hash H t"
  by (rule ext) (simp add: hash_def Let_def)

lemma wf_pTable_update:
  assumes "wellFormed t" "pTable t = Some tbl" "length tbl' = length tbl"
  shows "wellFormed (t \<lparr> pTable := Some tbl' \<rparr>)"
  using assms by (simp add: wellFormed_def)

lemma bucketsOk_cong:
  assumes "hashIxMask t' = hashIxMask t" "hashIxSplitMask t' = hashIxSplitMask t"
    "nextSplitIndex t' = nextSplitIndex t"
  shows "bucketsOk H t' tbl = bucketsOk H t tbl"
  unfolding bucketsOk_def hash_cong [OF assms] ..

lemma bucketsOk_pTable_update [simp]: "bucketsOk H (t \<lparr> pTable := p \<rparr>) tbl = bucketsOk H t tbl"
  by (simp add: bucketsOk_def)

lemma bucketsOk_nInUse_update [simp]: "bucketsOk H (t \<lparr> nInUse := p \<rparr>) tbl = bucketsOk H t tbl"
  by (simp add: bucketsOk_def)

lemma hash_less_length:
  assumes "wellFormed t" "pTable t = Some tbl"
  shows "hash H t i < length tbl"
  using hash_less_tableSize [OF assms, of H i] tableSize_le_length [OF assms] by linarith

lemma bucketsOk_push:
  assumes "bucketsOk H t tbl" "hash H t (fst x) = i"
  shows "bucketsOk H t (tbl [i := x # tbl ! i])"
  unfolding bucketsOk_def
proof (intro allI impI ballI)
  fix j y
  assume j: "j < length (tbl [i := x # tbl ! i])" and y: "y \<in> set (tbl [i := x # tbl ! i] ! j)"
  show "hash H t (fst y) = j"
  proof (cases "j = i")
    case True
    then have "y = x \<or> y \<in> set (tbl ! i)" using j y by simp
    then show ?thesis using assms True j by (auto simp: bucketsOk_def)
  next
    case False
    then have "y \<in> set (tbl ! j)" using y by simp
    then show ?thesis using assms(1) j by (simp add: bucketsOk_def)
  qed
qed

lemma rehash_result:
  assumes "wellFormed t" "pTable t = Some tbl" "bucketsOk H t tbl"
  shows "\<exists>tbl'. rehash H tmp t = t \<lparr> pTable := Some tbl' \<rparr> \<and> bucketsOk H t tbl' \<and>
           length tbl' = length tbl \<and> mset (concat tbl') = mset (concat tbl) + mset tmp"
  using assms
proof (induction tmp arbitrary: t tbl)
  case Nil
  then show ?case by (intro exI [of _ tbl]) simp
next
  case (Cons x tmp)
  let ?i = "hash H t (fst x)"
  let ?tbl1 = "tbl [?i := x # tbl ! ?i]"
  let ?t1 = "t \<lparr> pTable := Some ?tbl1 \<rparr>"
  have i: "?i < length tbl" using Cons.prems(1,2) by (rule hash_less_length)
  have w1: "wellFormed ?t1" using Cons.prems(1,2) by (rule wf_pTable_update) simp
  have p1: "pTable ?t1 = Some ?tbl1" by simp
  have b1: "bucketsOk H ?t1 ?tbl1" using bucketsOk_push [OF Cons.prems(3) refl] by simp
  from Cons.IH [OF w1 p1 b1] obtain tbl' where
    r: "rehash H tmp ?t1 = ?t1 \<lparr> pTable := Some tbl' \<rparr>" and
    b: "bucketsOk H ?t1 tbl'" and l: "length tbl' = length ?tbl1" and
    m: "mset (concat tbl') = mset (concat ?tbl1) + mset tmp" by blast
  have "rehash H (x # tmp) t = rehash H tmp ?t1"
    using Cons.prems(2) by (simp add: tsSLList_add_def Let_def)
  then have "rehash H (x # tmp) t = t \<lparr> pTable := Some tbl' \<rparr>" using r by simp
  moreover have "bucketsOk H t tbl'" using b by simp
  moreover have "length tbl' = length tbl" using l by simp
  moreover have "mset (concat tbl') = mset (concat tbl) + mset (x # tmp)"
    using m mset_concat_push [OF i] by simp
  ultimately show ?case by blast
qed

lemma map_nth_take: "n \<le> length xs \<Longrightarrow> map (\<lambda>i. xs ! i) [0 ..< n] = take n xs"
  by (rule nth_equalityI) simp_all

lemma invD:
  assumes "tableInv H t" "pTable t = Some tbl"
  shows "wellFormed t" and "bucketsOk H t tbl" and "distinct (map fst (concat tbl))"
    and "nInUse t = length (concat tbl)" and "nInUse t \<le> 1073741824"
  using assms by (simp_all add: tableInv_def)

lemma inv_None: "tableInv H t \<Longrightarrow> pTable t = None \<Longrightarrow> nInUse t = 0"
  by (simp add: tableInv_def)

lemma inv_wf: "tableInv H t \<Longrightarrow> wellFormed t"
  by (simp add: tableInv_def)

lemma invI:
  assumes "wellFormed t" "pTable t = Some tbl" "bucketsOk H t tbl" "distinct (map fst (concat tbl))"
    "nInUse t = length (concat tbl)" "nInUse t \<le> 1073741824"
  shows "tableInv H t"
  using assms by (simp add: tableInv_def)

lemma buckets_beyond_empty:
  assumes "wellFormed t" "pTable t = Some tbl" "bucketsOk H t tbl" "tableSize t \<le> j" "j < length tbl"
  shows "tbl ! j = []"
proof (rule ccontr)
  assume "tbl ! j \<noteq> []"
  then obtain x where x: "x \<in> set (tbl ! j)" by (cases "tbl ! j") auto
  then have "hash H t (fst x) = j" using assms(3,5) by (simp add: bucketsOk_def)
  moreover have "hash H t (fst x) < tableSize t" using assms(1,2) by (rule hash_less_tableSize)
  ultimately show False using assms(4) by simp
qed

lemma concat_take_tableSize:
  assumes "wellFormed t" "pTable t = Some tbl" "bucketsOk H t tbl"
  shows "concat (take (tableSize t) tbl) = concat tbl"
proof -
  have "\<forall>ys \<in> set (drop (tableSize t) tbl). ys = []"
  proof
    fix ys assume "ys \<in> set (drop (tableSize t) tbl)"
    then obtain k where k: "k < length (drop (tableSize t) tbl)" and ys: "ys = drop (tableSize t) tbl ! k"
      by (auto simp: in_set_conv_nth)
    have "ys = tbl ! (tableSize t + k)" using ys k by simp
    moreover have "tbl ! (tableSize t + k) = []"
      using assms by (rule buckets_beyond_empty) (use k in simp_all)
    ultimately show "ys = []" by simp
  qed
  then have "concat (drop (tableSize t) tbl) = []" by simp
  moreover have "concat tbl = concat (take (tableSize t) tbl) @ concat (drop (tableSize t) tbl)"
    by (metis append_take_drop_id concat_append)
  ultimately show ?thesis by simp
qed

lemma entries_concat:
  assumes "tableInv H t" "pTable t = Some tbl"
  shows "entries t = concat tbl"
proof -
  have w: "wellFormed t" using assms by (rule invD)
  have "tableSize t \<le> length tbl" using w assms(2) by (rule tableSize_le_length)
  then have "entries t = concat (take (tableSize t) tbl)"
    using assms(2) by (simp add: entries_def map_nth_take)
  then show ?thesis using concat_take_tableSize [OF w assms(2) invD(2) [OF assms]] by simp
qed

lemma entries_None: "pTable t = None \<Longrightarrow> entries t = []"
  by (simp add: entries_def)

lemma half_mask: "0 < k \<Longrightarrow> ((2::nat) ^ k - 1) div 2 = 2 ^ (k - 1) - 1"
proof -
  assume "0 < k"
  then obtain j where j: "k = Suc j" by (cases k) simp_all
  have d: "(2 * x - 1) div 2 = x - 1" if "0 < x" for x :: nat using that by arith
  have "(2 * 2 ^ j - 1) div 2 = (2 ^ j - 1 :: nat)" by (rule d) simp
  then show ?thesis using j by simp
qed

section \<open>Allocating and growing the bucket array\<close>

lemma u32_pow: "n \<le> 30 \<Longrightarrow> u32 (2 ^ n) = 2 ^ n"
proof -
  assume "n \<le> 30"
  then have "(2::nat) ^ n \<le> 1073741824" by (rule pow_le_30)
  then show ?thesis by (intro u32_id) linarith
qed

lemma setTableSizePrivate_noop:
  "lgIn \<le> logBaseTwoTableSize t \<Longrightarrow> setTableSizePrivate ok lgIn t = Inr (True, t)"
  by (simp add: setTableSizePrivate_def)

lemma setTableSizePrivate_fail:
  "logBaseTwoTableSize t < lgIn \<Longrightarrow>
     setTableSizePrivate False lgIn t = (if pTable t = None then Inl BadAlloc else Inr (False, t))"
  by (simp add: setTableSizePrivate_def Let_def)

definition firstTable :: "nat \<Rightarrow> ('id, 'v) resTable \<Rightarrow> ('id, 'v) resTable" where
  "firstTable lg t =
     t \<lparr> hashIxSplitMask := 2 ^ lg - 1, nBitsHashIxSplitMask := lg,
         hashIxMask := 2 ^ (lg - 1) - 1, nextSplitIndex := 0,
         pTable := Some (replicate (2 ^ lg) []), logBaseTwoTableSize := lg \<rparr>"

definition grownTable :: "nat \<Rightarrow> ('id \<times> 'v) tsSLList list \<Rightarrow> ('id, 'v) resTable \<Rightarrow> ('id, 'v) resTable" where
  "grownTable lg tbl t =
     t \<lparr> pTable := Some (take (tableSize t) tbl @ replicate (2 ^ lg - tableSize t) []),
         logBaseTwoTableSize := lg \<rparr>"

lemma setTableSizePrivate_first:
  assumes "pTable t = None" "logBaseTwoTableSize t < lgIn" "lgIn \<le> 30"
  shows "setTableSizePrivate True lgIn t = Inr (True, firstTable (max 4 lgIn) t)"
proof -
  let ?lg = "max 4 lgIn"
  have lg: "?lg \<le> 30" "0 < ?lg" using assms(3) by simp_all
  have a: "(if lgIn < 4 then 4 else lgIn) = ?lg" by simp
  have b: "u32 (2 ^ ?lg) = 2 ^ ?lg" using lg(1) by (rule u32_pow)
  have c: "resTableBitMask ?lg = 2 ^ ?lg - 1" using lg(1) by (rule resTableBitMask_eq)
  have d: "(2 ^ ?lg - 1) div 2 = (2 ^ (?lg - 1) - 1 :: nat)" using lg(2) by (rule half_mask)
  have e: "tableSize t = 0" using assms(1) by (simp add: tableSize_def)
  show ?thesis
    unfolding setTableSizePrivate_def a Let_def b c d e firstTable_def
    using assms(1,2) by simp
qed

lemma setTableSizePrivate_grow:
  assumes "wellFormed t" "pTable t = Some tbl" "logBaseTwoTableSize t < lgIn" "lgIn \<le> 30"
  shows "setTableSizePrivate True lgIn t = Inr (True, grownTable lgIn tbl t)"
proof -
  have "4 \<le> logBaseTwoTableSize t" using wfD(1,2) [OF assms(1,2)] by linarith
  then have a: "(if lgIn < 4 then 4 else lgIn) = lgIn" using assms(3) by simp
  have b: "u32 (2 ^ lgIn) = 2 ^ lgIn" using assms(4) by (rule u32_pow)
  show ?thesis
    unfolding setTableSizePrivate_def a Let_def b grownTable_def
    using assms(2,3) by simp
qed

lemma bucketsOk_replicate: "bucketsOk H t (replicate n [])"
  by (simp add: bucketsOk_def)

lemma inv_firstTable:
  assumes "tableInv H t" "pTable t = None" "4 \<le> lg" "lg \<le> 30"
  shows "tableInv H (firstTable lg t)"
proof -
  have "nInUse t = 0" using assms(1,2) by (rule inv_None)
  then show ?thesis
    using assms(3,4) by (simp add: tableInv_def wellFormed_def firstTable_def bucketsOk_replicate)
qed

lemma hash_grownTable [simp]: "hash H (grownTable lg tbl t) = hash H t"
  by (rule ext) (simp add: hash_def Let_def grownTable_def)

lemma inv_grownTable:
  assumes "tableInv H t" "pTable t = Some tbl" "logBaseTwoTableSize t < lg" "lg \<le> 30"
  shows "tableInv H (grownTable lg tbl t)"
proof -
  let ?N = "tableSize t"
  let ?tbl' = "take ?N tbl @ replicate (2 ^ lg - ?N) []"
  note w = invD(1) [OF assms(1,2)]
  have N: "?N \<le> length tbl" using w assms(2) by (rule tableSize_le_length)
  have "(2::nat) ^ logBaseTwoTableSize t \<le> 2 ^ lg"
    using assms(3) by (intro power_increasing) simp_all
  moreover have "?N \<le> 2 ^ logBaseTwoTableSize t" using N wfD(7) [OF w assms(2)] by simp
  ultimately have N2: "?N \<le> 2 ^ lg" by (rule order_trans [rotated])
  have len: "length ?tbl' = 2 ^ lg" using N N2 by simp
  have c: "concat ?tbl' = concat tbl"
    using concat_take_tableSize [OF w assms(2) invD(2) [OF assms(1,2)]] by simp
  have w': "wellFormed (grownTable lg tbl t)"
    using wfD [OF w assms(2)] assms(3,4) N N2 by (simp add: wellFormed_def grownTable_def)
  have b: "bucketsOk H (grownTable lg tbl t) ?tbl'"
    unfolding bucketsOk_def hash_grownTable
  proof (intro allI impI ballI)
    fix i x assume i: "i < length ?tbl'" and x: "x \<in> set (?tbl' ! i)"
    show "hash H t (fst x) = i"
    proof (cases "i < ?N")
      case True
      then have "?tbl' ! i = tbl ! i" using N by (simp add: nth_append)
      then show ?thesis using x invD(2) [OF assms(1,2)] True N by (simp add: bucketsOk_def)
    next
      case False
      then have "?tbl' ! i = []" using i N by (simp add: nth_append)
      then show ?thesis using x by simp
    qed
  qed
  show ?thesis
  proof (rule invI [OF w' _ b])
    show "pTable (grownTable lg tbl t) = Some ?tbl'" by (simp add: grownTable_def)
    show "distinct (map fst (concat ?tbl'))" unfolding c by (rule invD(3) [OF assms(1,2)])
    show "nInUse (grownTable lg tbl t) = length (concat ?tbl')"
      unfolding c using invD(4) [OF assms(1,2)] by (simp add: grownTable_def)
    show "nInUse (grownTable lg tbl t) \<le> 1073741824"
      using invD(5) [OF assms(1,2)] by (simp add: grownTable_def)
  qed
qed

lemma entries_grownTable:
  assumes "tableInv H t" "pTable t = Some tbl" "logBaseTwoTableSize t < lg" "lg \<le> 30"
  shows "entries (grownTable lg tbl t) = entries t"
proof -
  let ?tbl' = "take (tableSize t) tbl @ replicate (2 ^ lg - tableSize t) []"
  note w = invD(1) [OF assms(1,2)]
  have "entries (grownTable lg tbl t) = concat ?tbl'"
    using inv_grownTable [OF assms] by (rule entries_concat) (simp add: grownTable_def)
  also have "\<dots> = concat tbl"
    using concat_take_tableSize [OF w assms(2) invD(2) [OF assms(1,2)]] by simp
  also have "\<dots> = entries t" using entries_concat [OF assms(1,2)] by simp
  finally show ?thesis .
qed

section \<open>Splitting a bucket\<close>

lemma distinct_fst_mset:
  "mset xs = mset ys \<Longrightarrow> distinct (map fst xs) = distinct (map fst ys)"
proof -
  assume "mset xs = mset ys"
  then have "mset (map fst xs) = mset (map fst ys)" by simp
  then show ?thesis by (rule mset_eq_imp_distinct_iff)
qed

definition doubled :: "('id, 'v) resTable \<Rightarrow> ('id, 'v) resTable" where
  "doubled t =
     t \<lparr> nBitsHashIxSplitMask := nBitsHashIxSplitMask t + 1,
         hashIxSplitMask := 2 ^ (nBitsHashIxSplitMask t + 1) - 1,
         hashIxMask := 2 ^ nBitsHashIxSplitMask t - 1,
         nextSplitIndex := 0 \<rparr>"

definition splitStep :: "('id \<Rightarrow> nat) \<Rightarrow> ('id \<times> 'v) tsSLList list \<Rightarrow> ('id, 'v) resTable \<Rightarrow> ('id, 'v) resTable" where
  "splitStep H tbl t =
     rehash H (tbl ! nextSplitIndex t)
       (t \<lparr> pTable := Some (tbl [nextSplitIndex t := []]),
            nextSplitIndex := nextSplitIndex t + 1 \<rparr>)"

lemma needs_doubling:
  assumes "wellFormed t" "pTable t = Some tbl"
  shows "(hashIxMask t < nextSplitIndex t) = (nextSplitIndex t = 2 ^ (nBitsHashIxSplitMask t - 1))"
proof -
  have "0 < (2::nat) ^ (nBitsHashIxSplitMask t - 1)" by simp
  then show ?thesis using wfD(5,6) [OF assms] by linarith
qed

lemma wf_doubled:
  assumes "wellFormed t" "pTable t = Some tbl" "nBitsHashIxSplitMask t + 1 \<le> logBaseTwoTableSize t"
  shows "wellFormed (doubled t)"
  using wfD [OF assms(1,2)] assms(2,3) by (simp add: wellFormed_def doubled_def)

lemma hash_doubled:
  assumes "wellFormed t" "pTable t = Some tbl" "nBitsHashIxSplitMask t + 1 \<le> logBaseTwoTableSize t"
    "nextSplitIndex t = 2 ^ (nBitsHashIxSplitMask t - 1)"
  shows "hash H (doubled t) i = hash H t i"
proof -
  let ?k = "nBitsHashIxSplitMask t"
  have k: "0 < ?k" using wfD(1) [OF assms(1,2)] by simp
  have p: "pTable (doubled t) = Some tbl" using assms(2) by (simp add: doubled_def)
  have "hash H (doubled t) i = bucketOf (2 ^ ?k) 0 (H i)"
    using hash_bucketOf [OF wf_doubled [OF assms(1-3)] p, of H i] by (simp add: doubled_def)
  also have "\<dots> = bucketOf (2 * 2 ^ (?k - 1)) 0 (H i)" using pow_pred_double [OF k] by simp
  also have "\<dots> = bucketOf (2 ^ (?k - 1)) (2 ^ (?k - 1)) (H i)" by (rule bucketOf_double) simp
  also have "\<dots> = hash H t i" using hash_bucketOf [OF assms(1,2), of H i] assms(4) by simp
  finally show ?thesis .
qed

lemma inv_doubled:
  assumes "tableInv H t" "pTable t = Some tbl" "nBitsHashIxSplitMask t + 1 \<le> logBaseTwoTableSize t"
    "nextSplitIndex t = 2 ^ (nBitsHashIxSplitMask t - 1)"
  shows "tableInv H (doubled t)"
proof -
  note w = invD(1) [OF assms(1,2)]
  have b: "bucketsOk H (doubled t) tbl"
    using invD(2) [OF assms(1,2)] by (simp add: bucketsOk_def hash_doubled [OF w assms(2-4)])
  show ?thesis
  proof (rule invI [OF wf_doubled [OF w assms(2,3)] _ b])
    show "pTable (doubled t) = Some tbl" using assms(2) by (simp add: doubled_def)
    show "distinct (map fst (concat tbl))" by (rule invD(3) [OF assms(1,2)])
    show "nInUse (doubled t) = length (concat tbl)"
      using invD(4) [OF assms(1,2)] by (simp add: doubled_def)
    show "nInUse (doubled t) \<le> 1073741824"
      using invD(5) [OF assms(1,2)] by (simp add: doubled_def)
  qed
qed

lemma splitStep_result:
  assumes "tableInv H t" "pTable t = Some tbl" "nextSplitIndex t < 2 ^ (nBitsHashIxSplitMask t - 1)"
  shows "\<exists>tbl'. splitStep H tbl t = t \<lparr> pTable := Some tbl', nextSplitIndex := nextSplitIndex t + 1 \<rparr> \<and>
           tableInv H (splitStep H tbl t) \<and> length tbl' = length tbl \<and>
           mset (concat tbl') = mset (concat tbl)"
proof -
  let ?n = "nextSplitIndex t"
  let ?m = "2 ^ (nBitsHashIxSplitMask t - 1) :: nat"
  let ?tbl3 = "tbl [?n := []]"
  let ?t3 = "t \<lparr> pTable := Some ?tbl3, nextSplitIndex := ?n + 1 \<rparr>"
  note w = invD(1) [OF assms(1,2)]
  have w3: "wellFormed ?t3" using wfD [OF w assms(2)] assms(3) by (simp add: wellFormed_def)
  have p3: "pTable ?t3 = Some ?tbl3" by simp
  have "0 < ?m" by simp
  moreover have "?m + ?n \<le> length tbl"
    using tableSize_le_length [OF w assms(2)] by (simp add: tableSize_wf [OF w assms(2)])
  ultimately have n: "?n < length tbl" by linarith
  have h3: "hash H ?t3 i = bucketOf ?m (Suc ?n) (H i)" for i
    using hash_bucketOf [OF w3 p3, of H i] by simp
  have b3: "bucketsOk H ?t3 ?tbl3"
    unfolding bucketsOk_def
  proof (intro allI impI ballI)
    fix i x assume i: "i < length ?tbl3" and x: "x \<in> set (?tbl3 ! i)"
    have ne: "i \<noteq> ?n" using x n by (cases "i = ?n") simp_all
    then have "x \<in> set (tbl ! i)" using x by simp
    then have "hash H t (fst x) = i" using invD(2) [OF assms(1,2)] i by (simp add: bucketsOk_def)
    then have e: "bucketOf ?m ?n (H (fst x)) = i" by (simp add: hash_bucketOf [OF w assms(2)])
    then have "bucketOf ?m (Suc ?n) (H (fst x)) = bucketOf ?m ?n (H (fst x))"
      using ne by (intro bucketOf_step_other) simp
    then show "hash H ?t3 (fst x) = i" unfolding h3 using e by simp
  qed
  from rehash_result [OF w3 p3 b3, of "tbl ! ?n"] obtain tbl' where
    r: "rehash H (tbl ! ?n) ?t3 = ?t3 \<lparr> pTable := Some tbl' \<rparr>" and
    b: "bucketsOk H ?t3 tbl'" and l: "length tbl' = length ?tbl3" and
    m: "mset (concat tbl') = mset (concat ?tbl3) + mset (tbl ! ?n)" by blast
  have m': "mset (concat tbl') = mset (concat tbl)"
    using m mset_concat_update [OF n, of "[]"] by simp
  have s: "splitStep H tbl t = t \<lparr> pTable := Some tbl', nextSplitIndex := ?n + 1 \<rparr>"
    using r by (simp add: splitStep_def)
  have w': "wellFormed (?t3 \<lparr> pTable := Some tbl' \<rparr>)" using w3 p3 l by (rule wf_pTable_update)
  have "tableInv H (?t3 \<lparr> pTable := Some tbl' \<rparr>)"
  proof (rule invI [OF w'])
    show "pTable (?t3 \<lparr> pTable := Some tbl' \<rparr>) = Some tbl'" by simp
    have "bucketsOk H (?t3 \<lparr> pTable := Some tbl' \<rparr>) tbl' = bucketsOk H ?t3 tbl'"
      by (rule bucketsOk_cong) simp_all
    then show "bucketsOk H (?t3 \<lparr> pTable := Some tbl' \<rparr>) tbl'" using b by (rule iffD2)
    show "distinct (map fst (concat tbl'))"
      using distinct_fst_mset [OF m'] invD(3) [OF assms(1,2)] by simp
    show "nInUse (?t3 \<lparr> pTable := Some tbl' \<rparr>) = length (concat tbl')"
      using mset_eq_length [OF m'] invD(4) [OF assms(1,2)] by simp
    show "nInUse (?t3 \<lparr> pTable := Some tbl' \<rparr>) \<le> 1073741824"
      using invD(5) [OF assms(1,2)] by simp
  qed
  then have "tableInv H (splitStep H tbl t)" using r by (simp add: splitStep_def)
  then show ?thesis using s l m' by (intro exI [of _ tbl']) simp
qed

lemma splitBucket_no_growth:
  assumes "wellFormed t" "pTable t = Some tbl" "nextSplitIndex t < 2 ^ (nBitsHashIxSplitMask t - 1)"
  shows "splitBucket H ok t = Inr (splitStep H tbl t)"
proof -
  have a: "\<not> hashIxMask t < nextSplitIndex t"
    using needs_doubling [OF assms(1,2)] assms(3) by simp
  have "nBitsHashIxSplitMask t - 1 \<le> 30" using wfD(2,3) [OF assms(1,2)] by linarith
  then have "(2::nat) ^ (nBitsHashIxSplitMask t - 1) \<le> 1073741824" by (rule pow_le_30)
  then have b: "u32 (Suc (nextSplitIndex t)) = Suc (nextSplitIndex t)"
    using assms(3) by (intro u32_id) linarith
  show ?thesis
    using a assms(2) b by (simp add: splitBucket_def Let_def splitStep_def)
qed

lemma splitBucket_growth_failed:
  assumes "wellFormed t" "pTable t = Some tbl" "nextSplitIndex t = 2 ^ (nBitsHashIxSplitMask t - 1)"
    "logBaseTwoTableSize t < nBitsHashIxSplitMask t + 1"
  shows "splitBucket H False t = Inr t"
proof -
  have a: "hashIxMask t < nextSplitIndex t"
    using needs_doubling [OF assms(1,2)] assms(3) by simp
  have "nBitsHashIxSplitMask t + 1 < 4294967296" using wfD(2,3) [OF assms(1,2)] by linarith
  then have b: "u32 (nBitsHashIxSplitMask t + 1) = nBitsHashIxSplitMask t + 1" by (rule u32_id)
  have c: "setTableSizePrivate False (nBitsHashIxSplitMask t + 1) t = Inr (False, t)"
    using assms(2,4) by (simp add: setTableSizePrivate_fail)
  show ?thesis
    unfolding splitBucket_def Let_def b c using a by simp
qed

lemma splitBucket_doubling:
  assumes "wellFormed t" "pTable t = Some tbl" "nextSplitIndex t = 2 ^ (nBitsHashIxSplitMask t - 1)"
    "nBitsHashIxSplitMask t < 30"
    "setTableSizePrivate ok (nBitsHashIxSplitMask t + 1) t = Inr (True, t1)"
    "nBitsHashIxSplitMask t1 = nBitsHashIxSplitMask t" "pTable t1 = Some tbl1"
  shows "splitBucket H ok t = Inr (splitStep H tbl1 (doubled t1))"
proof -
  let ?k = "nBitsHashIxSplitMask t"
  have a: "hashIxMask t < nextSplitIndex t"
    using needs_doubling [OF assms(1,2)] assms(3) by simp
  have "Suc ?k < 4294967296" using assms(4) by linarith
  then have b: "u32 (Suc ?k) = Suc ?k" by (rule u32_id)
  have k: "Suc ?k \<le> 30" "0 < Suc ?k" using assms(4) by simp_all
  have c: "resTableBitMask (Suc ?k) = 2 ^ Suc ?k - 1" using k(1) by (rule resTableBitMask_eq)
  have d: "(2 ^ Suc ?k - 1) div 2 = (2 ^ ?k - 1 :: nat)" using half_mask [OF k(2)] by simp
  have e: "u32 (Suc 0) = Suc 0" by (rule u32_id) simp
  have g: "setTableSizePrivate ok (Suc ?k) t = Inr (True, t1)" using assms(5) by simp
  have "splitBucket H ok t =
          Inr (rehash H (tbl1 ! 0)
            (t1 \<lparr> nBitsHashIxSplitMask := Suc ?k, hashIxSplitMask := 2 ^ Suc ?k - 1,
                 hashIxMask := (2 ^ Suc ?k - 1) div 2, nextSplitIndex := 0,
                 pTable := Some (tbl1 [0 := []]), nextSplitIndex := Suc 0 \<rparr>))"
    using a assms(6,7) by (simp add: splitBucket_def Let_def b g c e del: power_Suc)
  also have "\<dots> = Inr (splitStep H tbl1 (doubled t1))"
    unfolding d using assms(6,7) by (simp add: splitStep_def doubled_def)
  finally show ?thesis .
qed

lemma splitBucket_inv:
  assumes "tableInv H t" "pTable t = Some tbl"
    "nextSplitIndex t < 2 ^ (nBitsHashIxSplitMask t - 1) \<or> nBitsHashIxSplitMask t < 30"
  shows "\<exists>t' tbl'. splitBucket H ok t = Inr t' \<and> tableInv H t' \<and> pTable t' = Some tbl' \<and>
           mset (concat tbl') = mset (concat tbl) \<and> nInUse t' = nInUse t"
proof -
  note w = invD(1) [OF assms(1,2)]
  let ?k = "nBitsHashIxSplitMask t"
  consider (split) "nextSplitIndex t < 2 ^ (?k - 1)"
    | (failed) "nextSplitIndex t = 2 ^ (?k - 1)" "logBaseTwoTableSize t < ?k + 1" "\<not> ok"
    | (roomy) "nextSplitIndex t = 2 ^ (?k - 1)" "?k < 30" "?k + 1 \<le> logBaseTwoTableSize t"
    | (grow) "nextSplitIndex t = 2 ^ (?k - 1)" "?k < 30" "logBaseTwoTableSize t < ?k + 1" "ok"
    using assms(3) wfD(6) [OF w assms(2)] by fastforce
  then show ?thesis
  proof cases
    case split
    from splitStep_result [OF assms(1,2) split] obtain tbl' where
      "splitStep H tbl t = t \<lparr> pTable := Some tbl', nextSplitIndex := nextSplitIndex t + 1 \<rparr>"
      "tableInv H (splitStep H tbl t)" "mset (concat tbl') = mset (concat tbl)" by blast
    then show ?thesis
      using splitBucket_no_growth [OF w assms(2) split, of H ok] by auto
  next
    case failed
    then show ?thesis
      using splitBucket_growth_failed [OF w assms(2) failed(1,2), of H] assms(1,2) by auto
  next
    case roomy
    have s: "setTableSizePrivate ok (?k + 1) t = Inr (True, t)"
      using roomy(3) by (rule setTableSizePrivate_noop)
    have i: "tableInv H (doubled t)" using assms(1,2) roomy(3,1) by (rule inv_doubled)
    have p: "pTable (doubled t) = Some tbl" using assms(2) by (simp add: doubled_def)
    have n: "nextSplitIndex (doubled t) < 2 ^ (nBitsHashIxSplitMask (doubled t) - 1)"
      by (simp add: doubled_def)
    from splitStep_result [OF i p n] obtain tbl' where
      "splitStep H tbl (doubled t) =
         (doubled t) \<lparr> pTable := Some tbl', nextSplitIndex := nextSplitIndex (doubled t) + 1 \<rparr>"
      "tableInv H (splitStep H tbl (doubled t))" "mset (concat tbl') = mset (concat tbl)" by blast
    then show ?thesis
      using splitBucket_doubling [OF w assms(2) roomy(1,2) s refl assms(2), of H]
      by (auto simp: doubled_def)
  next
    case grow
    let ?t1 = "grownTable (?k + 1) tbl t"
    let ?tbl1 = "take (tableSize t) tbl @ replicate (2 ^ (?k + 1) - tableSize t) []"
    have k: "?k + 1 \<le> 30" using grow(2) by simp
    have s: "setTableSizePrivate ok (?k + 1) t = Inr (True, ?t1)"
      using setTableSizePrivate_grow [OF w assms(2) grow(3) k] grow(4) by simp
    have i1: "tableInv H ?t1" using assms(1,2) grow(3) k by (rule inv_grownTable)
    have p1: "pTable ?t1 = Some ?tbl1" by (simp add: grownTable_def)
    have c1: "concat ?tbl1 = concat tbl"
      using concat_take_tableSize [OF w assms(2) invD(2) [OF assms(1,2)]] by simp
    have f1: "nBitsHashIxSplitMask ?t1 = ?k" "nextSplitIndex ?t1 = nextSplitIndex t"
      "logBaseTwoTableSize ?t1 = ?k + 1" "nInUse ?t1 = nInUse t"
      by (simp_all add: grownTable_def)
    have i: "tableInv H (doubled ?t1)"
      using i1 p1 by (rule inv_doubled) (use f1 grow(1) in simp_all)
    have p: "pTable (doubled ?t1) = Some ?tbl1" by (simp add: doubled_def grownTable_def)
    have n: "nextSplitIndex (doubled ?t1) < 2 ^ (nBitsHashIxSplitMask (doubled ?t1) - 1)"
      by (simp add: doubled_def)
    from splitStep_result [OF i p n] obtain tbl' where
      "splitStep H ?tbl1 (doubled ?t1) =
         (doubled ?t1) \<lparr> pTable := Some tbl', nextSplitIndex := nextSplitIndex (doubled ?t1) + 1 \<rparr>"
      "tableInv H (splitStep H ?tbl1 (doubled ?t1))" "mset (concat tbl') = mset (concat ?tbl1)" by blast
    then show ?thesis
      using splitBucket_doubling [OF w assms(2) grow(1,2) s f1(1) p1, of H] c1 f1(4)
      by (auto simp: doubled_def)
  qed
qed

lemma splitBucket_effect:
  assumes "tableInv H t" "pTable t = Some tbl"
    "nextSplitIndex t < 2 ^ (nBitsHashIxSplitMask t - 1) \<or> nBitsHashIxSplitMask t < 30"
  shows "\<exists>t'. splitBucket H ok t = Inr t' \<and>
           (if hashIxMask t < nextSplitIndex t \<and>
               logBaseTwoTableSize t \<le> nBitsHashIxSplitMask t \<and> \<not> ok
            then t' = t
            else tableSize t' = tableSize t + 1 \<and>
                 (if hashIxMask t < nextSplitIndex t
                  then nextSplitIndex t' = 1 \<and> hashIxMask t' = hashIxSplitMask t \<and>
                       hashIxSplitMask t' = 2 * hashIxSplitMask t + 1 \<and>
                       nBitsHashIxSplitMask t' = nBitsHashIxSplitMask t + 1
                  else nextSplitIndex t' = nextSplitIndex t + 1 \<and>
                       hashIxMask t' = hashIxMask t \<and>
                       hashIxSplitMask t' = hashIxSplitMask t \<and>
                       nBitsHashIxSplitMask t' = nBitsHashIxSplitMask t \<and>
                       logBaseTwoTableSize t' = logBaseTwoTableSize t))"
proof -
  note w = invD(1) [OF assms(1,2)]
  let ?k = "nBitsHashIxSplitMask t"
  note nd = needs_doubling [OF w assms(2)]
  have k4: "4 \<le> ?k" by (rule wfD(1) [OF w assms(2)])
  have m: "hashIxMask t = 2 ^ (?k - 1) - 1" "hashIxSplitMask t = 2 ^ ?k - 1"
    using wfD(4,5) [OF w assms(2)] by simp_all
  have pk: "(2::nat) ^ ?k = 2 * 2 ^ (?k - 1)" using pow_pred_double [of ?k] k4 by simp
  have q: "2 * (2::nat) ^ ?k - Suc 0 = Suc (2 * (2 ^ ?k - Suc 0))"
  proof -
    have "0 < (2::nat) ^ ?k" by simp
    then show ?thesis by arith
  qed
  have ts0: "tableSize t = 2 ^ (?k - 1) + nextSplitIndex t" using w assms(2) by (rule tableSize_wf)
  consider (split) "nextSplitIndex t < 2 ^ (?k - 1)"
    | (failed) "nextSplitIndex t = 2 ^ (?k - 1)" "logBaseTwoTableSize t < ?k + 1" "\<not> ok"
    | (roomy) "nextSplitIndex t = 2 ^ (?k - 1)" "?k < 30" "?k + 1 \<le> logBaseTwoTableSize t"
    | (grow) "nextSplitIndex t = 2 ^ (?k - 1)" "?k < 30" "logBaseTwoTableSize t < ?k + 1" "ok"
    using assms(3) wfD(6) [OF w assms(2)] by fastforce
  then show ?thesis
  proof cases
    case split
    then have n: "\<not> hashIxMask t < nextSplitIndex t" using nd by simp
    from splitStep_result [OF assms(1,2) split] obtain tbl' where
      s: "splitStep H tbl t = t \<lparr> pTable := Some tbl', nextSplitIndex := nextSplitIndex t + 1 \<rparr>"
      and i: "tableInv H (splitStep H tbl t)" by blast
    have "pTable (splitStep H tbl t) = Some tbl'" unfolding s by simp
    from tableSize_wf [OF inv_wf [OF i] this]
    have "tableSize (splitStep H tbl t) = tableSize t + 1" unfolding ts0 unfolding s by simp
    then show ?thesis
      using splitBucket_no_growth [OF w assms(2) split, of H ok] n unfolding s by simp
  next
    case failed
    then have "hashIxMask t < nextSplitIndex t" "logBaseTwoTableSize t \<le> ?k" using nd by simp_all
    then show ?thesis
      using splitBucket_growth_failed [OF w assms(2) failed(1,2), of H] failed(3) by simp
  next
    case roomy
    have d: "hashIxMask t < nextSplitIndex t" "\<not> logBaseTwoTableSize t \<le> ?k"
      using nd roomy by simp_all
    have s: "setTableSizePrivate ok (?k + 1) t = Inr (True, t)"
      using roomy(3) by (rule setTableSizePrivate_noop)
    have i: "tableInv H (doubled t)" using assms(1,2) roomy(3,1) by (rule inv_doubled)
    have p: "pTable (doubled t) = Some tbl" using assms(2) by (simp add: doubled_def)
    have n: "nextSplitIndex (doubled t) < 2 ^ (nBitsHashIxSplitMask (doubled t) - 1)"
      by (simp add: doubled_def)
    from splitStep_result [OF i p n] obtain tbl' where
      e: "splitStep H tbl (doubled t) =
         (doubled t) \<lparr> pTable := Some tbl', nextSplitIndex := nextSplitIndex (doubled t) + 1 \<rparr>"
      and i': "tableInv H (splitStep H tbl (doubled t))" by blast
    have f: "nextSplitIndex (splitStep H tbl (doubled t)) = 1"
      "hashIxMask (splitStep H tbl (doubled t)) = hashIxSplitMask t"
      "hashIxSplitMask (splitStep H tbl (doubled t)) = 2 * hashIxSplitMask t + 1"
      "nBitsHashIxSplitMask (splitStep H tbl (doubled t)) = ?k + 1"
      "pTable (splitStep H tbl (doubled t)) = Some tbl'"
      unfolding e using m q by (simp_all add: doubled_def)
    have "tableSize (splitStep H tbl (doubled t)) = tableSize t + 1"
      using tableSize_wf [OF inv_wf [OF i'] f(5)] ts0 f(1,4) roomy(1) pk by simp
    then show ?thesis
      using splitBucket_doubling [OF w assms(2) roomy(1,2) s refl assms(2), of H] d f by simp
  next
    case grow
    have d: "hashIxMask t < nextSplitIndex t" "ok" using nd grow by simp_all
    let ?t1 = "grownTable (?k + 1) tbl t"
    let ?tbl1 = "take (tableSize t) tbl @ replicate (2 ^ (?k + 1) - tableSize t) []"
    have k: "?k + 1 \<le> 30" using grow(2) by simp
    have s: "setTableSizePrivate ok (?k + 1) t = Inr (True, ?t1)"
      using setTableSizePrivate_grow [OF w assms(2) grow(3) k] grow(4) by simp
    have i1: "tableInv H ?t1" using assms(1,2) grow(3) k by (rule inv_grownTable)
    have p1: "pTable ?t1 = Some ?tbl1" by (simp add: grownTable_def)
    have f1: "nBitsHashIxSplitMask ?t1 = ?k" "nextSplitIndex ?t1 = nextSplitIndex t"
      "logBaseTwoTableSize ?t1 = ?k + 1" "nInUse ?t1 = nInUse t"
      by (simp_all add: grownTable_def)
    have i: "tableInv H (doubled ?t1)"
      using i1 p1 by (rule inv_doubled) (use f1 grow(1) in simp_all)
    have p: "pTable (doubled ?t1) = Some ?tbl1" by (simp add: doubled_def grownTable_def)
    have n: "nextSplitIndex (doubled ?t1) < 2 ^ (nBitsHashIxSplitMask (doubled ?t1) - 1)"
      by (simp add: doubled_def)
    from splitStep_result [OF i p n] obtain tbl' where
      e: "splitStep H ?tbl1 (doubled ?t1) =
         (doubled ?t1) \<lparr> pTable := Some tbl', nextSplitIndex := nextSplitIndex (doubled ?t1) + 1 \<rparr>"
      and i': "tableInv H (splitStep H ?tbl1 (doubled ?t1))" by blast
    have f: "nextSplitIndex (splitStep H ?tbl1 (doubled ?t1)) = 1"
      "hashIxMask (splitStep H ?tbl1 (doubled ?t1)) = hashIxSplitMask t"
      "hashIxSplitMask (splitStep H ?tbl1 (doubled ?t1)) = 2 * hashIxSplitMask t + 1"
      "nBitsHashIxSplitMask (splitStep H ?tbl1 (doubled ?t1)) = ?k + 1"
      "pTable (splitStep H ?tbl1 (doubled ?t1)) = Some tbl'"
      unfolding e using m q by (simp_all add: doubled_def grownTable_def)
    have "tableSize (splitStep H ?tbl1 (doubled ?t1)) = tableSize t + 1"
      using tableSize_wf [OF inv_wf [OF i'] f(5)] ts0 f(1,4) grow(1) pk by simp
    then show ?thesis
      using splitBucket_doubling [OF w assms(2) grow(1,2) s f1(1) p1, of H] d f by simp
  qed
qed

section \<open>Searching a chain\<close>

lemma find_eq_None: "(find_res (=) xs i = None) = (i \<notin> fst ` set xs)"
  by (induction xs) auto

lemma find_eq_SomeD: "find_res (=) xs i = Some x \<Longrightarrow> x \<in> set xs \<and> fst x = i"
  by (induction xs) (auto split: if_splits)

lemma find_distinct:
  "distinct (map fst xs) \<Longrightarrow> x \<in> set xs \<Longrightarrow> find_res (=) xs (fst x) = Some x"
  by (induction xs) (auto simp: rev_image_eqI)

lemma removeFirst_find: "fst (removeFirst (=) xs i) = find_res (=) xs i"
  by (induction xs) (auto split: prod.splits)

lemma removeFirst_None: "find_res (=) xs i = None \<Longrightarrow> snd (removeFirst (=) xs i) = xs"
  by (induction xs) (auto split: prod.splits if_splits)

lemma removeFirst_Some:
  "find_res (=) xs i = Some x \<Longrightarrow> mset xs = add_mset x (mset (snd (removeFirst (=) xs i)))"
  by (induction xs) (auto split: prod.splits if_splits)

lemma in_concat_bucket:
  assumes "bucketsOk H t tbl" "x \<in> set (concat tbl)"
  shows "hash H t (fst x) < length tbl \<and> x \<in> set (tbl ! hash H t (fst x))"
proof -
  from assms(2) obtain ys where "ys \<in> set tbl" "x \<in> set ys" by auto
  then obtain j where j: "j < length tbl" "x \<in> set (tbl ! j)" by (auto simp: in_set_conv_nth)
  then have "hash H t (fst x) = j" using assms(1) by (simp add: bucketsOk_def)
  then show ?thesis using j by simp
qed

lemma distinct_bucket:
  assumes "distinct (map fst (concat tbl))" "j < length tbl"
  shows "distinct (map fst (tbl ! j))"
proof -
  have "tbl = take j tbl @ (tbl ! j) # drop (Suc j) tbl" using assms(2) by (rule id_take_nth_drop)
  then have "concat tbl = concat (take j tbl) @ tbl ! j @ concat (drop (Suc j) tbl)"
    by (metis concat.simps(2) concat_append)
  then show ?thesis using assms(1) by simp
qed

lemma lookup_resident:
  assumes "tableInv H t" "pTable t = Some tbl"
  shows "(lookup H (=) i t = Some x) = (x \<in> set (concat tbl) \<and> fst x = i)"
proof
  assume "lookup H (=) i t = Some x"
  then have f: "find_res (=) (tbl ! hash H t i) i = Some x" using assms(2) by (simp add: lookup_def)
  have "hash H t i < length tbl" using invD(1) [OF assms] assms(2) by (rule hash_less_length)
  then have "tbl ! hash H t i \<in> set tbl" by (rule nth_mem)
  then have "set (tbl ! hash H t i) \<subseteq> set (concat tbl)" by auto
  then show "x \<in> set (concat tbl) \<and> fst x = i" using find_eq_SomeD [OF f] by auto
next
  assume a: "x \<in> set (concat tbl) \<and> fst x = i"
  then have b: "hash H t i < length tbl" "x \<in> set (tbl ! hash H t i)"
    using in_concat_bucket [OF invD(2) [OF assms], of x] by auto
  have "distinct (map fst (tbl ! hash H t i))"
    using invD(3) [OF assms] b(1) by (rule distinct_bucket)
  then have "find_res (=) (tbl ! hash H t i) (fst x) = Some x" using b(2) by (rule find_distinct)
  then show "lookup H (=) i t = Some x" using a assms(2) by (simp add: lookup_def)
qed

lemma lookup_None: "pTable t = None \<Longrightarrow> lookup H E i t = None"
  by (simp add: lookup_def)

lemma lookup_entries:
  assumes "tableInv H t"
  shows "(lookup H (=) i t = Some x) = (x \<in> set (entries t) \<and> fst x = i)"
proof (cases "pTable t")
  case None
  then show ?thesis by (simp add: lookup_None entries_None)
next
  case (Some tbl)
  then show ?thesis using lookup_resident [OF assms Some] entries_concat [OF assms Some] by simp
qed

section \<open>Adding and removing\<close>

lemma find_absent:
  assumes "tableInv H t" "pTable t = Some tbl" "i \<notin> fst ` set (concat tbl)"
  shows "find_res (=) (tbl ! hash H t i) i = None"
proof -
  have "hash H t i < length tbl" using invD(1) [OF assms(1,2)] assms(2) by (rule hash_less_length)
  then have "tbl ! hash H t i \<in> set tbl" by (rule nth_mem)
  then have "set (tbl ! hash H t i) \<subseteq> set (concat tbl)" by auto
  then have "i \<notin> fst ` set (tbl ! hash H t i)" using assms(3) by auto
  then show ?thesis by (simp add: find_eq_None)
qed

lemma find_present:
  assumes "tableInv H t" "pTable t = Some tbl" "i \<in> fst ` set (concat tbl)"
  shows "find_res (=) (tbl ! hash H t i) i \<noteq> None"
proof -
  from assms(3) obtain x where x: "x \<in> set (concat tbl)" "fst x = i" by blast
  then have "x \<in> set (tbl ! hash H t i)"
    using in_concat_bucket [OF invD(2) [OF assms(1,2)], of x] by simp
  then have "i \<in> fst ` set (tbl ! hash H t i)" using x(2) by (metis imageI)
  then show ?thesis by (simp add: find_eq_None)
qed

lemma addToBucket_duplicate:
  assumes "tableInv H t" "pTable t = Some tbl" "fst res \<in> fst ` set (concat tbl)"
  shows "addToBucket H (=) res t = Inr (- 1, t)"
  using find_present [OF assms] assms(2) by (simp add: addToBucket_def Let_def)

definition linked :: "('id \<Rightarrow> nat) \<Rightarrow> ('id \<times> 'v) \<Rightarrow> ('id \<times> 'v) tsSLList list \<Rightarrow> ('id, 'v) resTable \<Rightarrow> ('id, 'v) resTable" where
  "linked H res tbl t =
     t \<lparr> pTable := Some (tbl [hash H t (fst res) := res # tbl ! hash H t (fst res)]),
         nInUse := nInUse t + 1 \<rparr>"

lemma addToBucket_new:
  assumes "tableInv H t" "pTable t = Some tbl" "fst res \<notin> fst ` set (concat tbl)"
    "nInUse t < 1073741824"
  shows "addToBucket H (=) res t = Inr (0, linked H res tbl t)"
proof -
  have "u32 (Suc (nInUse t)) = Suc (nInUse t)" using assms(4) by (intro u32_id) linarith
  then show ?thesis
    using find_absent [OF assms(1-3)] assms(2)
    by (simp add: addToBucket_def Let_def linked_def tsSLList_add_def)
qed

lemma inv_linked:
  assumes "tableInv H t" "pTable t = Some tbl" "fst res \<notin> fst ` set (concat tbl)"
    "nInUse t < 1073741824"
  shows "tableInv H (linked H res tbl t)"
proof -
  let ?i = "hash H t (fst res)"
  let ?tbl' = "tbl [?i := res # tbl ! ?i]"
  note w = invD(1) [OF assms(1,2)]
  have i: "?i < length tbl" using w assms(2) by (rule hash_less_length)
  have m: "mset (concat ?tbl') = add_mset res (mset (concat tbl))" using i by (rule mset_concat_push)
  have w': "wellFormed (linked H res tbl t)" using wfD [OF w assms(2)] by (simp add: wellFormed_def linked_def)
  have "bucketsOk H (linked H res tbl t) ?tbl' = bucketsOk H t ?tbl'"
    by (rule bucketsOk_cong) (simp_all add: linked_def)
  then have b: "bucketsOk H (linked H res tbl t) ?tbl'"
    using bucketsOk_push [OF invD(2) [OF assms(1,2)] refl] by simp
  have "mset (concat ?tbl') = mset (res # concat tbl)" using m by simp
  then have "distinct (map fst (concat ?tbl')) = distinct (map fst (res # concat tbl))"
    by (rule distinct_fst_mset)
  then have d: "distinct (map fst (concat ?tbl'))" using assms(3) invD(3) [OF assms(1,2)] by simp
  have "length (concat ?tbl') = length (res # concat tbl)"
    using m by (intro mset_eq_length) simp
  then have l: "nInUse (linked H res tbl t) = length (concat ?tbl')"
    using invD(4) [OF assms(1,2)] by (simp add: linked_def)
  show ?thesis
  proof (rule invI [OF w' _ b d l])
    show "pTable (linked H res tbl t) = Some ?tbl'" by (simp add: linked_def)
    show "nInUse (linked H res tbl t) \<le> 1073741824" using assms(4) by (simp add: linked_def)
  qed
qed

lemma entries_linked:
  assumes "tableInv H t" "pTable t = Some tbl" "fst res \<notin> fst ` set (concat tbl)"
    "nInUse t < 1073741824"
  shows "mset (entries (linked H res tbl t)) = add_mset res (mset (entries t))"
proof -
  let ?i = "hash H t (fst res)"
  have i: "?i < length tbl" using invD(1) [OF assms(1,2)] assms(2) by (rule hash_less_length)
  have "entries (linked H res tbl t) = concat (tbl [?i := res # tbl ! ?i])"
    using inv_linked [OF assms] by (rule entries_concat) (simp add: linked_def)
  then show ?thesis using mset_concat_push [OF i] entries_concat [OF assms(1,2)] by simp
qed

lemma add_throws:
  assumes "wellFormed t" "pTable t = None"
  shows "add H E False res t = Inl BadAlloc"
proof -
  have "logBaseTwoTableSize t = 0" using assms by (simp add: wellFormed_def)
  then have "setTableSizePrivate False 10 t = Inl BadAlloc"
    using assms(2) by (simp add: setTableSizePrivate_fail)
  then show ?thesis using assms(2) by (simp add: add_def)
qed

lemma entries_mset_concat:
  assumes "tableInv H t" "pTable t = Some tbl"
  shows "mset (entries t) = mset (concat tbl)" and "set (entries t) = set (concat tbl)"
  using entries_concat [OF assms] by simp_all

lemma split_allowed:
  assumes "wellFormed t" "pTable t = Some tbl" "tableSize t \<le> nInUse t" "nInUse t < 1073741824"
  shows "nextSplitIndex t < 2 ^ (nBitsHashIxSplitMask t - 1) \<or> nBitsHashIxSplitMask t < 30"
proof (cases "nextSplitIndex t < 2 ^ (nBitsHashIxSplitMask t - 1)")
  case True
  then show ?thesis by simp
next
  case False
  let ?k = "nBitsHashIxSplitMask t"
  have k: "0 < ?k" using wfD(1) [OF assms(1,2)] by simp
  have "nextSplitIndex t = 2 ^ (?k - 1)" using False wfD(6) [OF assms(1,2)] by simp
  then have "tableSize t = 2 * 2 ^ (?k - 1)" by (simp add: tableSize_wf [OF assms(1,2)])
  then have "tableSize t = 2 ^ ?k" using pow_pred_double [OF k] by simp
  then have "(2::nat) ^ ?k < 2 ^ 30" using assms(3,4) by simp
  then have "?k < 30" by (rule power_less_imp_less_exp [rotated]) simp
  then show ?thesis by simp
qed

lemma add_result:
  assumes "tableInv H t" "nInUse t < 1073741824" "pTable t \<noteq> None \<or> ok"
  shows "\<exists>st t'. add H (=) ok res t = Inr (st, t') \<and> tableInv H t' \<and> pTable t' \<noteq> None \<and>
           (fst res \<in> fst ` set (entries t) \<longrightarrow>
              st = - 1 \<and> mset (entries t') = mset (entries t) \<and> nInUse t' = nInUse t) \<and>
           (fst res \<notin> fst ` set (entries t) \<longrightarrow>
              st = 0 \<and> mset (entries t') = add_mset res (mset (entries t)) \<and>
              nInUse t' = nInUse t + 1)"
proof (cases "pTable t")
  case None
  let ?t1 = "firstTable 10 t"
  let ?tbl1 = "replicate (2 ^ 10) [] :: ('a \<times> 'b) list list"
  note w = inv_wf [OF assms(1)]
  have ok: ok using assms(3) None by simp
  have "logBaseTwoTableSize t = 0" using w None by (simp add: wellFormed_def)
  then have "setTableSizePrivate True 10 t = Inr (True, firstTable (max 4 10) t)"
    using None by (intro setTableSizePrivate_first) simp_all
  then have s: "setTableSizePrivate ok 10 t = Inr (True, ?t1)" using ok by simp
  have i1: "tableInv H ?t1" using assms(1) None by (rule inv_firstTable) simp_all
  have p1: "pTable ?t1 = Some ?tbl1" by (simp add: firstTable_def)
  have n1: "nInUse ?t1 = nInUse t" by (simp add: firstTable_def)
  have a: "fst res \<notin> fst ` set (concat ?tbl1)" by simp
  have b: "nInUse ?t1 < 1073741824" using assms(2) n1 by simp
  have "add H (=) ok res t = Inr (0, linked H res ?tbl1 ?t1)"
    using None s addToBucket_new [OF i1 p1 a b] by (simp add: add_def)
  moreover have "tableInv H (linked H res ?tbl1 ?t1)" using i1 p1 a b by (rule inv_linked)
  moreover have "mset (entries (linked H res ?tbl1 ?t1)) = add_mset res (mset (entries t))"
    using entries_linked [OF i1 p1 a b] entries_concat [OF i1 p1] None
    by (simp add: entries_None)
  moreover have "nInUse (linked H res ?tbl1 ?t1) = nInUse t + 1" using n1 by (simp add: linked_def)
  moreover have "pTable (linked H res ?tbl1 ?t1) \<noteq> None" by (simp add: linked_def)
  moreover have "fst res \<notin> fst ` set (entries t)" using None by (simp add: entries_None)
  ultimately show ?thesis by simp
next
  case (Some tbl)
  note w = invD(1) [OF assms(1) Some]
  show ?thesis
  proof (cases "tableSize t \<le> nInUse t")
    case False
    then have a: "add H (=) ok res t = addToBucket H (=) res t" using Some by (simp add: add_def)
    show ?thesis
    proof (cases "fst res \<in> fst ` set (concat tbl)")
      case True
      then show ?thesis
        using a addToBucket_duplicate [OF assms(1) Some True] assms(1) Some
          entries_concat [OF assms(1) Some] by simp
    next
      case False
      have "add H (=) ok res t = Inr (0, linked H res tbl t)"
        using a addToBucket_new [OF assms(1) Some False assms(2)] by simp
      moreover have "tableInv H (linked H res tbl t)" using assms(1) Some False assms(2) by (rule inv_linked)
      moreover have "mset (entries (linked H res tbl t)) = add_mset res (mset (entries t))"
        using assms(1) Some False assms(2) by (rule entries_linked)
      moreover have "nInUse (linked H res tbl t) = nInUse t + 1" by (simp add: linked_def)
      moreover have "pTable (linked H res tbl t) \<noteq> None" by (simp add: linked_def)
      moreover have "fst res \<notin> fst ` set (entries t)"
        using False entries_concat [OF assms(1) Some] by simp
      ultimately show ?thesis by simp
    qed
  next
    case True
    have "nextSplitIndex t < 2 ^ (nBitsHashIxSplitMask t - 1) \<or> nBitsHashIxSplitMask t < 30"
      using w Some True assms(2) by (rule split_allowed)
    from splitBucket_inv [OF assms(1) Some this, of ok] obtain t1 tbl1 where
      s: "splitBucket H ok t = Inr t1" and i1: "tableInv H t1" and p1: "pTable t1 = Some tbl1" and
      m1: "mset (concat tbl1) = mset (concat tbl)" and n1: "nInUse t1 = nInUse t" by blast
    have e1: "mset (entries t1) = mset (entries t)"
      using m1 entries_concat [OF i1 p1] entries_concat [OF assms(1) Some] by simp
    have "set_mset (mset (concat tbl1)) = set_mset (mset (concat tbl))" using m1 by simp
    then have ids: "set (concat tbl1) = set (concat tbl)" by (simp only: set_mset_mset)
    show ?thesis
    proof (cases "fst res \<in> fst ` set (concat tbl)")
      case present: True
      then have "fst res \<in> fst ` set (concat tbl1)" using ids by simp
      then have "find_res (=) (tbl1 ! hash H t1 (fst res)) (fst res) \<noteq> None"
        by (rule find_present [OF i1 p1])
      then have "add H (=) ok res t = Inr (- 1, t1)"
        using Some True s p1 by (simp add: add_def)
      moreover have "fst res \<in> fst ` set (entries t)"
        using present entries_concat [OF assms(1) Some] by simp
      ultimately show ?thesis using i1 p1 e1 n1 by simp
    next
      case absent: False
      then have a1: "fst res \<notin> fst ` set (concat tbl1)" using ids by simp
      then have "find_res (=) (tbl1 ! hash H t1 (fst res)) (fst res) = None"
        by (rule find_absent [OF i1 p1])
      moreover have b1: "nInUse t1 < 1073741824" using n1 assms(2) by simp
      ultimately have "add H (=) ok res t = Inr (0, linked H res tbl1 t1)"
        using Some True s p1 addToBucket_new [OF i1 p1 a1] by (simp add: add_def)
      moreover have "tableInv H (linked H res tbl1 t1)" using i1 p1 a1 b1 by (rule inv_linked)
      moreover have "mset (entries (linked H res tbl1 t1)) = add_mset res (mset (entries t))"
        using entries_linked [OF i1 p1 a1 b1] e1 by simp
      moreover have "nInUse (linked H res tbl1 t1) = nInUse t + 1" using n1 by (simp add: linked_def)
      moreover have "pTable (linked H res tbl1 t1) \<noteq> None" by (simp add: linked_def)
      moreover have "fst res \<notin> fst ` set (entries t)"
        using absent entries_concat [OF assms(1) Some] by simp
      ultimately show ?thesis by simp
    qed
  qed
qed

lemma remove_absent:
  assumes "lookup H (=) i t = None"
  shows "remove H (=) i t = (None, t)"
proof (cases "pTable t")
  case None
  then show ?thesis by (simp add: remove_def)
next
  case (Some tbl)
  then have "find_res (=) (tbl ! hash H t i) i = None" using assms by (simp add: lookup_def)
  then have "fst (removeFirst (=) (tbl ! hash H t i) i) = None" by (simp add: removeFirst_find)
  then obtain ys where "removeFirst (=) (tbl ! hash H t i) i = (None, ys)"
    by (cases "removeFirst (=) (tbl ! hash H t i) i") simp
  then show ?thesis using Some by (simp add: remove_def Let_def)
qed

definition unlinked :: "('id \<Rightarrow> nat) \<Rightarrow> 'id \<Rightarrow> ('id \<times> 'v) tsSLList list \<Rightarrow> ('id, 'v) resTable \<Rightarrow> ('id, 'v) resTable" where
  "unlinked H i tbl t =
     t \<lparr> pTable := Some (tbl [hash H t i := snd (removeFirst (=) (tbl ! hash H t i) i)]),
         nInUse := nInUse t - 1 \<rparr>"

lemma remove_present:
  assumes "tableInv H t" "pTable t = Some tbl" "lookup H (=) i t = Some x"
  shows "remove H (=) i t = (Some x, unlinked H i tbl t)"
proof -
  have x: "x \<in> set (concat tbl)" using lookup_resident [OF assms(1,2)] assms(3) by simp
  then have "0 < length (concat tbl)" by (cases "concat tbl") simp_all
  then have "0 < nInUse t" "nInUse t < 4294967296"
    using invD(4,5) [OF assms(1,2)] by simp_all
  then have u: "u32 (nInUse t + 4294967295) = nInUse t - 1" by (rule u32_minus_one)
  have "find_res (=) (tbl ! hash H t i) i = Some x" using assms(2,3) by (simp add: lookup_def)
  then have "fst (removeFirst (=) (tbl ! hash H t i) i) = Some x" by (simp add: removeFirst_find)
  then obtain ys where r: "removeFirst (=) (tbl ! hash H t i) i = (Some x, ys)"
    by (cases "removeFirst (=) (tbl ! hash H t i) i") simp
  have "remove H (=) i t =
          (Some x, t \<lparr> pTable := Some (tbl [hash H t i := ys]), nInUse := nInUse t - 1 \<rparr>)"
    using assms(2) u r by (simp add: remove_def Let_def)
  moreover have "ys = snd (removeFirst (=) (tbl ! hash H t i) i)" using r by simp
  ultimately show ?thesis by (simp add: unlinked_def)
qed

lemma inv_unlinked:
  assumes "tableInv H t" "pTable t = Some tbl" "lookup H (=) i t = Some x"
  shows "tableInv H (unlinked H i tbl t)"
    and "mset (entries t) = add_mset x (mset (entries (unlinked H i tbl t)))"
proof -
  let ?j = "hash H t i"
  let ?ys = "snd (removeFirst (=) (tbl ! ?j) i)"
  let ?tbl' = "tbl [?j := ?ys]"
  note w = invD(1) [OF assms(1,2)]
  have j: "?j < length tbl" using w assms(2) by (rule hash_less_length)
  have f: "find_res (=) (tbl ! ?j) i = Some x" using assms(2,3) by (simp add: lookup_def)
  have b: "mset (tbl ! ?j) = add_mset x (mset ?ys)" using f by (rule removeFirst_Some)
  have m: "mset (concat tbl) = add_mset x (mset (concat ?tbl'))"
    using mset_concat_update [OF j, of ?ys] b by simp
  have "set_mset (mset ?ys) \<subseteq> set_mset (mset (tbl ! ?j))" unfolding b by auto
  then have sub: "set ?ys \<subseteq> set (tbl ! ?j)" by simp
  have w': "wellFormed (unlinked H i tbl t)" using wfD [OF w assms(2)] by (simp add: wellFormed_def unlinked_def)
  have "bucketsOk H t ?tbl'"
    unfolding bucketsOk_def
  proof (intro allI impI ballI)
    fix k y assume k: "k < length ?tbl'" and y: "y \<in> set (?tbl' ! k)"
    have "y \<in> set (tbl ! k)" using y sub j by (cases "k = ?j") auto
    then show "hash H t (fst y) = k" using invD(2) [OF assms(1,2)] k by (simp add: bucketsOk_def)
  qed
  moreover have "bucketsOk H (unlinked H i tbl t) ?tbl' = bucketsOk H t ?tbl'"
    by (rule bucketsOk_cong) (simp_all add: unlinked_def)
  ultimately have bo: "bucketsOk H (unlinked H i tbl t) ?tbl'" by simp
  have "mset (x # concat ?tbl') = mset (concat tbl)" using m by simp
  then have "distinct (map fst (x # concat ?tbl')) = distinct (map fst (concat tbl))"
    by (rule distinct_fst_mset)
  then have d: "distinct (map fst (concat ?tbl'))" using invD(3) [OF assms(1,2)] by simp
  have "length (x # concat ?tbl') = length (concat tbl)"
    using m by (intro mset_eq_length) simp
  then have l: "nInUse (unlinked H i tbl t) = length (concat ?tbl')"
    using invD(4) [OF assms(1,2)] by (simp add: unlinked_def)
  show i': "tableInv H (unlinked H i tbl t)"
  proof (rule invI [OF w' _ bo d l])
    show "pTable (unlinked H i tbl t) = Some ?tbl'" by (simp add: unlinked_def)
    show "nInUse (unlinked H i tbl t) \<le> 1073741824"
      using invD(5) [OF assms(1,2)] by (simp add: unlinked_def)
  qed
  have "entries (unlinked H i tbl t) = concat ?tbl'"
    using i' by (rule entries_concat) (simp add: unlinked_def)
  then show "mset (entries t) = add_mset x (mset (entries (unlinked H i tbl t)))"
    using m entries_concat [OF assms(1,2)] by simp
qed

lemma remove_result:
  assumes "tableInv H t"
  shows "\<exists>t'. remove H (=) i t = (lookup H (=) i t, t') \<and> tableInv H t' \<and>
           (pTable t' = None) = (pTable t = None) \<and>
           (case lookup H (=) i t of
              None \<Rightarrow> t' = t
            | Some x \<Rightarrow> mset (entries t) = add_mset x (mset (entries t')) \<and>
                        Suc (nInUse t') = nInUse t)"
proof (cases "lookup H (=) i t")
  case None
  then show ?thesis using remove_absent [OF None] assms by simp
next
  case (Some x)
  then obtain tbl where p: "pTable t = Some tbl" by (cases "pTable t") (simp_all add: lookup_None)
  have "x \<in> set (concat tbl)" using lookup_resident [OF assms p] Some by simp
  then have "0 < length (concat tbl)" by (cases "concat tbl") simp_all
  then have "Suc (nInUse (unlinked H i tbl t)) = nInUse t"
    using invD(4) [OF assms p] by (simp add: unlinked_def)
  moreover have "pTable (unlinked H i tbl t) \<noteq> None" by (simp add: unlinked_def)
  ultimately show ?thesis
    using remove_present [OF assms p Some] inv_unlinked [OF assms p Some] Some p by simp
qed

section \<open>Setting the table size\<close>

lemma and_high_bits_zero:
  assumes "(m::nat) < 1073741824"
  shows "m AND 3221225472 = 0"
proof (rule bit_eqI)
  fix n
  have a: "(3221225472::nat) = push_bit 30 3" by (simp add: push_bit_eq_mult)
  have "\<not> (bit m n \<and> bit (push_bit 30 (3::nat)) n)"
  proof (cases "n < 30")
    case True
    then have "\<not> bit (push_bit 30 (3::nat)) n" unfolding bit_push_bit_iff by simp
    then show ?thesis by (rule contrapos_nn) (rule conjunct2)
  next
    case False
    then have "(2::nat) ^ 30 \<le> 2 ^ n" by (intro power_increasing) simp_all
    then have "m < 2 ^ n" using assms by simp
    then have "\<not> bit m n" by (simp add: bit_iff_odd)
    then show ?thesis by simp
  qed
  then show "bit (m AND 3221225472) n = bit (0::nat) n" unfolding a by (simp add: bit_and_iff)
qed

lemma countBits_le:
  "nbits \<le> 30 \<Longrightarrow> newMask < 1073741824 \<Longrightarrow> countBits newMask nbits \<le> 30"
proof (induction newMask nbits rule: countBits.induct)
  case (1 newMask nbits)
  show ?case
  proof (cases "nbits = 30")
    case True
    have "resTableBitMask 30 = 2 ^ 30 - 1" by (rule resTableBitMask_eq) simp
    then have "4294967295 - resTableBitMask 30 = 3221225472" by simp
    then have "newMask AND (4294967295 - resTableBitMask 30) = 0"
      using and_high_bits_zero [OF "1.prems"(2)] by simp
    then show ?thesis using True by (subst countBits.simps) simp
  next
    case False
    then have lt: "nbits < 30" using "1.prems"(1) by simp
    show ?thesis
    proof (cases "newMask AND (4294967295 - resTableBitMask nbits) = 0")
      case True
      then show ?thesis using lt by (subst countBits.simps) simp
    next
      case nz: False
      have "countBits newMask (nbits + 1) \<le> 30"
        using lt nz "1.prems"(2) by (intro "1.IH") simp_all
      then show ?thesis using lt nz by (subst countBits.simps) simp
    qed
  qed
qed

lemma tableSize_cong:
  assumes "hashIxMask t' = hashIxMask t" "nextSplitIndex t' = nextSplitIndex t"
    "(pTable t' = None) = (pTable t = None)"
  shows "tableSize t' = tableSize t"
  using assms by (simp add: tableSize_def)

lemma setTableSizePrivate_result:
  assumes "tableInv H t" "lgIn \<le> 30" "setTableSizePrivate ok lgIn t = Inr (b, t')"
  shows "tableInv H t' \<and> entries t' = entries t \<and> nInUse t' = nInUse t \<and>
         (pTable t \<noteq> None \<longrightarrow>
            pTable t' \<noteq> None \<and> nextSplitIndex t' = nextSplitIndex t \<and>
            hashIxMask t' = hashIxMask t \<and> hashIxSplitMask t' = hashIxSplitMask t \<and>
            nBitsHashIxSplitMask t' = nBitsHashIxSplitMask t)"
proof (cases "lgIn \<le> logBaseTwoTableSize t")
  case True
  then show ?thesis using assms(1,3) by (simp add: setTableSizePrivate_noop)
next
  case False
  then have lt: "logBaseTwoTableSize t < lgIn" by simp
  show ?thesis
  proof (cases ok)
    case False
    then show ?thesis
      using assms(1,3) setTableSizePrivate_fail [OF lt] by (simp split: if_splits)
  next
    case True
    show ?thesis
    proof (cases "pTable t")
      case None
      have r: "t' = firstTable (max 4 lgIn) t"
        using assms(3) True setTableSizePrivate_first [OF None lt assms(2)] by simp
      have i: "tableInv H (firstTable (max 4 lgIn) t)"
        using assms(1) None by (rule inv_firstTable) (use assms(2) in simp_all)
      have "entries (firstTable (max 4 lgIn) t) = concat (replicate (2 ^ max 4 lgIn) [])"
        using i by (rule entries_concat) (simp add: firstTable_def)
      then have "entries (firstTable (max 4 lgIn) t) = entries t"
        using None by (simp add: entries_None)
      then show ?thesis using r i None by (simp add: firstTable_def)
    next
      case (Some tbl)
      note w = invD(1) [OF assms(1) Some]
      have r: "t' = grownTable lgIn tbl t"
        using assms(3) True setTableSizePrivate_grow [OF w Some lt assms(2)] by simp
      show ?thesis
        unfolding r
        using inv_grownTable [OF assms(1) Some lt assms(2)]
          entries_grownTable [OF assms(1) Some lt assms(2)]
        by (simp add: grownTable_def)
    qed
  qed
qed

lemma setTableSize_result:
  assumes "tableInv H t" "n \<le> 1073741824" "setTableSize ok n t = Inr t'"
  shows "tableInv H t' \<and> entries t' = entries t \<and> nInUse t' = nInUse t \<and>
         (pTable t \<noteq> None \<longrightarrow>
            pTable t' \<noteq> None \<and> nextSplitIndex t' = nextSplitIndex t \<and>
            hashIxMask t' = hashIxMask t \<and> hashIxSplitMask t' = hashIxSplitMask t \<and>
            nBitsHashIxSplitMask t' = nBitsHashIxSplitMask t)"
proof (cases "n = 0")
  case True
  then show ?thesis using assms(1,3) by (simp add: setTableSize_def)
next
  case False
  then have "n - 1 < 1073741824" using assms(2) by simp
  then have c: "countBits (n - 1) 0 \<le> 30" by (intro countBits_le) simp_all
  obtain b where "setTableSizePrivate ok (countBits (n - 1) 0) t = Inr (b, t')"
    using assms(3) False by (auto simp: setTableSize_def Let_def split: sum.splits)
  with assms(1) c show ?thesis by (rule setTableSizePrivate_result)
qed

section \<open>Reachable tables\<close>

text \<open>
  The tables that completed operations produce from a constructed one. An \<^verbatim>\<open>add\<close> is
  taken with fewer than \<open>2 ^ 30\<close> entries installed and a \<^verbatim>\<open>setTableSize\<close> with a size of
  at most \<open>2 ^ 30\<close>: beyond that the C++ expression \<^verbatim>\<open>1 << n\<close> is undefined.
\<close>

inductive reachable ::
  "('id \<Rightarrow> nat) \<Rightarrow> ('id \<Rightarrow> 'id \<Rightarrow> bool) \<Rightarrow> ('id, 'v) resTable \<Rightarrow> bool"
  for H :: "'id \<Rightarrow> nat" and E :: "'id \<Rightarrow> 'id \<Rightarrow> bool" where
  constructed: "reachable H E resTable_new"
| added:
    "reachable H E t \<Longrightarrow> nInUse t < 1073741824 \<Longrightarrow> add H E allocOk res t = Inr (status, t')
       \<Longrightarrow> reachable H E t'"
| removed: "reachable H E t \<Longrightarrow> remove H E idIn t = (r, t') \<Longrightarrow> reachable H E t'"
| resized:
    "reachable H E t \<Longrightarrow> newTableSize \<le> 1073741824 \<Longrightarrow>
       setTableSize allocOk newTableSize t = Inr t' \<Longrightarrow> reachable H E t'"

lemma inv_resTable_new: "tableInv H resTable_new"
  by (simp add: tableInv_def wellFormed_def resTable_new_def)

lemma eq_is_equality: "(\<And>x y. E x y = (x = y)) \<Longrightarrow> E = (=)"
  by (intro ext) simp

lemma reachable_inv:
  assumes "\<And>x y. E x y = (x = y)" "reachable H E t"
  shows "tableInv H t"
  using assms(2)
proof (induction rule: reachable.induct)
  case constructed
  show ?case by (rule inv_resTable_new)
next
  case (added t allocOk res status t')
  have e: "E = (=)" using assms(1) by (rule eq_is_equality)
  show ?case
  proof (cases "pTable t \<noteq> None \<or> allocOk")
    case True
    from add_result [OF added.IH added.hyps(2) True, of res] added.hyps(3)
    show ?thesis unfolding e by auto
  next
    case False
    then have "add H E allocOk res t = Inl BadAlloc"
      using add_throws [OF inv_wf [OF added.IH], of H E res] by simp
    then show ?thesis using added.hyps(3) by simp
  qed
next
  case (removed t idIn r t')
  have e: "E = (=)" using assms(1) by (rule eq_is_equality)
  from remove_result [OF removed.IH, of idIn] removed.hyps(2)
  show ?case unfolding e by auto
next
  case (resized t newTableSize allocOk t')
  from setTableSize_result [OF resized.IH resized.hyps(2,3)] show ?case by simp
qed

section \<open>Sequences of operations\<close>

datatype ('id, 'v) operation =
  Add "'id \<times> 'v" bool
| Remove 'id
| SetTableSize nat bool

fun step ::
  "('id \<Rightarrow> nat) \<Rightarrow> ('id \<Rightarrow> 'id \<Rightarrow> bool) \<Rightarrow> ('id, 'v) operation
     \<Rightarrow> ('id, 'v) resTable \<times> ('id \<rightharpoonup> 'id \<times> 'v) \<Rightarrow> ('id, 'v) resTable \<times> ('id \<rightharpoonup> 'id \<times> 'v)" where
  "step H E (Add res allocOk) (t, m) =
     (case add H E allocOk res t of
        Inl e \<Rightarrow> (t, m)
      | Inr (status, t') \<Rightarrow> (t', if status = 0 then m (fst res \<mapsto> res) else m))"
| "step H E (Remove idIn) (t, m) =
     (case remove H E idIn t of (r, t') \<Rightarrow> (t', m (idIn := None)))"
| "step H E (SetTableSize newTableSize allocOk) (t, m) =
     (case setTableSize allocOk newTableSize t of
        Inl e \<Rightarrow> (t, m)
      | Inr t' \<Rightarrow> (t', m))"

definition run ::
  "('id \<Rightarrow> nat) \<Rightarrow> ('id \<Rightarrow> 'id \<Rightarrow> bool) \<Rightarrow> ('id, 'v) operation list
     \<Rightarrow> ('id, 'v) resTable \<times> ('id \<rightharpoonup> 'id \<times> 'v)" where
  "run H E ops = fold (step H E) ops (resTable_new, Map.empty)"

lemma list_update_Cons_numeral:
  "(x # xs) [numeral v := y] = x # xs [numeral v - 1 := y]"
  by (simp add: numeral_eq_Suc)

lemma replicate_numeral: "replicate (numeral v) x = x # replicate (numeral v - 1) x"
  by (simp add: numeral_eq_Suc)

lemmas eval_list = list_update_Cons_numeral replicate_numeral

lemma countBits_15: "countBits 15 0 = 4"
  by (simp add: countBits.simps resTableBitMask_def u32_def)

fun admissible :: "('id, 'v) operation \<Rightarrow> ('id, 'v) resTable \<Rightarrow> bool" where
  "admissible (Add res allocOk) t = (nInUse t < 1073741824)"
| "admissible (Remove idIn) t = True"
| "admissible (SetTableSize newTableSize allocOk) t = (newTableSize \<le> 1073741824)"

fun guarded ::
  "('id \<Rightarrow> nat) \<Rightarrow> ('id \<Rightarrow> 'id \<Rightarrow> bool) \<Rightarrow> ('id, 'v) operation list
     \<Rightarrow> ('id, 'v) resTable \<times> ('id \<rightharpoonup> 'id \<times> 'v) \<Rightarrow> bool" where
  "guarded H E [] s = True"
| "guarded H E (op # ops) s = (admissible op (fst s) \<and> guarded H E ops (step H E op s))"

lemma reachable_step:
  assumes "reachable H E t" "admissible op t"
  shows "reachable H E (fst (step H E op (t, m)))"
proof (cases op)
  case (Add res allocOk)
  have n: "nInUse t < 1073741824" using assms(2) Add by simp
  show ?thesis
  proof (cases "add H E allocOk res t")
    case (Inl e)
    then show ?thesis using Add assms(1) by simp
  next
    case (Inr p)
    then obtain status t' where a: "add H E allocOk res t = Inr (status, t')" by (cases p) simp
    have "reachable H E t'" using assms(1) n a by (rule reachable.added)
    then show ?thesis using Add a by simp
  qed
next
  case (Remove idIn)
  obtain r t' where r: "remove H E idIn t = (r, t')" by (cases "remove H E idIn t")
  have "reachable H E t'" using assms(1) r by (rule reachable.removed)
  then show ?thesis using Remove r by simp
next
  case (SetTableSize n allocOk)
  have n: "n \<le> 1073741824" using assms(2) SetTableSize by simp
  show ?thesis
  proof (cases "setTableSize allocOk n t")
    case (Inl e)
    then show ?thesis using SetTableSize assms(1) by simp
  next
    case (Inr t')
    have "reachable H E t'" using assms(1) n Inr by (rule reachable.resized)
    then show ?thesis using SetTableSize Inr by simp
  qed
qed

lemma reachable_fold:
  "reachable H E (fst s) \<Longrightarrow> guarded H E ops s \<Longrightarrow> reachable H E (fst (fold (step H E) ops s))"
proof (induction ops arbitrary: s)
  case Nil
  then show ?case by simp
next
  case (Cons op ops)
  obtain t m where s: "s = (t, m)" by (cases s)
  have "reachable H E (fst (step H E op s))"
    using Cons.prems reachable_step [of H E t op m] s by simp
  then show ?case using Cons.IH [of "step H E op s"] Cons.prems(2) by simp
qed

lemma reachable_run: "guarded H E ops (resTable_new, Map.empty) \<Longrightarrow> reachable H E (fst (run H E ops))"
  unfolding run_def by (rule reachable_fold) (simp_all add: reachable.constructed)

text \<open>Evaluation of the operations on concrete tables.\<close>

lemmas eval_table =
  run_def setTableSize_def countBits_15 setTableSizePrivate_def resTable_new_def
  tableSize_def resTableBitMask_def u32_def add_def addToBucket_def hash_def tsSLList_add_def
  splitBucket_def Let_def eval_list

definition ops10 :: "(nat, unit) operation list" where
  "ops10 = SetTableSize 16 True # map (\<lambda>i. Add (i, ()) True) [0, 1, 2, 3, 4, 5, 6, 7, 8, 9]"

lemma run_ops10:
  "fst (run (\<lambda>x. x) (=) ops10) =
     \<lparr> pTable = Some [[(0, ())], [(1, ())], [(2, ())], [(3, ())], [(4, ())], [(5, ())], [(6, ())],
                      [(7, ())], [(8, ())], [(9, ())], [], [], [], [], [], []],
       nextSplitIndex = 2, hashIxMask = 7, hashIxSplitMask = 15, nBitsHashIxSplitMask = 4,
       logBaseTwoTableSize = 4, nInUse = 10 \<rparr>"
  by (simp add: ops10_def eval_table)

lemma guarded_ops10: "guarded (\<lambda>x. x) (=) ops10 (resTable_new, Map.empty)"
  by (simp add: ops10_def eval_table)

lemma reachable_ops10: "reachable (\<lambda>x. x) (=) (fst (run (\<lambda>x. x) (=) ops10))"
  using guarded_ops10 by (rule reachable_run)

text \<open>
  C3. In every reachable table the bucket index of an identifier with raw hash \<open>h\<close> is
  \<open>h AND hashIxMask\<close> when that value is at least \<open>nextSplitIndex\<close>, and otherwise
  \<open>h AND fullMask\<close> with \<open>fullMask = 2 * hashIxMask + 1\<close>.
\<close>

theorem bucket_index_linear_hashing:
  assumes "\<And>x y. E x y = (x = y)" and "reachable H E t"
  shows "hash H t idIn =
           (if nextSplitIndex t \<le> H idIn AND hashIxMask t then H idIn AND hashIxMask t
            else H idIn AND (2 * hashIxMask t + 1))"
proof (cases "pTable t")
  case None
  have "wellFormed t" using reachable_inv [OF assms] by (rule inv_wf)
  then show ?thesis using None by (simp add: wellFormed_def hash_def)
next
  case (Some tbl)
  have w: "wellFormed t" using reachable_inv [OF assms] by (rule inv_wf)
  let ?k = "nBitsHashIxSplitMask t"
  have k: "0 < ?k" using wfD(1) [OF w Some] by simp
  have "hashIxSplitMask t = 2 * 2 ^ (?k - 1) - 1"
    using wfD(4) [OF w Some] pow_pred_double [OF k] by simp
  moreover have "hashIxMask t = 2 ^ (?k - 1) - 1" by (rule wfD(5) [OF w Some])
  moreover have "0 < (2::nat) ^ (?k - 1)" by simp
  ultimately have "hashIxSplitMask t = 2 * hashIxMask t + 1" by linarith
  then show ?thesis by (simp add: hash_def Let_def)
qed

theorem bucket_index_linear_hashing_witness:
  "reachable (\<lambda>x. x) (=) (fst (run (\<lambda>x. x) (=) ops10)) \<and>
   hash (\<lambda>x. x) (fst (run (\<lambda>x. x) (=) ops10)) 13 = 5 \<and>
   hash (\<lambda>x. x) (fst (run (\<lambda>x. x) (=) ops10)) 9 = 9 \<and>
   hash (\<lambda>x. x) (fst (run (\<lambda>x. x) (=) ops10)) 17 = 1"
  using bucket_index_linear_hashing [of "(=)" "\<lambda>x. x" "fst (run (\<lambda>x. x) (=) ops10)" 13]
    bucket_index_linear_hashing [of "(=)" "\<lambda>x. x" "fst (run (\<lambda>x. x) (=) ops10)" 9]
    bucket_index_linear_hashing [of "(=)" "\<lambda>x. x" "fst (run (\<lambda>x. x) (=) ops10)" 17]
    reachable_ops10
  by (simp add: run_ops10)

section \<open>The self test and the structural invariants\<close>

text \<open>
  \<^verbatim>\<open>resTable::verify\<close>, the self test: the result is \<open>True\<close> when no assertion fails. The
  running \<^verbatim>\<open>total\<close> is an \<^verbatim>\<open>unsigned\<close>.
\<close>

definition verify :: "('id \<Rightarrow> nat) \<Rightarrow> ('id, 'v) resTable \<Rightarrow> bool" where
  "verify H t =
     (let N = tableSize t in
      case pTable t of
        Some tbl \<Rightarrow>
          nextSplitIndex t \<le> u32 (hashIxMask t + 1) \<and>
          hashIxMask t \<noteq> 0 \<and>
          hashIxMask t = hashIxSplitMask t div 2 \<and>
          hashIxSplitMask t \<noteq> 0 \<and>
          nBitsHashIxSplitMask t \<noteq> 0 \<and>
          resTableBitMask (nBitsHashIxSplitMask t) = hashIxSplitMask t \<and>
          logBaseTwoTableSize t \<noteq> 0 \<and>
          nBitsHashIxSplitMask t \<le> logBaseTwoTableSize t \<and>
          list_all (\<lambda>i. list_all (\<lambda>item. hash H t (fst item) = i) (tbl ! i)) [0 ..< N] \<and>
          u32 (sum_list (map (\<lambda>i. length (tbl ! i)) [0 ..< N])) = nInUse t
      | None \<Rightarrow>
          nextSplitIndex t = 0 \<and> hashIxMask t = 0 \<and> hashIxSplitMask t = 0 \<and>
          nBitsHashIxSplitMask t = 0 \<and> logBaseTwoTableSize t = 0 \<and> 0 = nInUse t)"

text \<open>The three structural invariants of the specification.\<close>

definition bucketConsistent :: "('id \<Rightarrow> nat) \<Rightarrow> ('id, 'v) resTable \<Rightarrow> bool" where
  "bucketConsistent H t =
     (case pTable t of
        None \<Rightarrow> True
      | Some tbl \<Rightarrow>
          list_all (\<lambda>i. list_all (\<lambda>item. hash H t (fst item) = i) (tbl ! i)) [0 ..< tableSize t])"

fun noEqualIds :: "('id \<Rightarrow> 'id \<Rightarrow> bool) \<Rightarrow> ('id \<times> 'v) list \<Rightarrow> bool" where
  "noEqualIds E [] = True"
| "noEqualIds E (x # xs) =
     (list_all (\<lambda>y. \<not> E (fst x) (fst y) \<and> \<not> E (fst y) (fst x)) xs \<and> noEqualIds E xs)"

definition chainTotal :: "('id, 'v) resTable \<Rightarrow> nat" where
  "chainTotal t =
     (case pTable t of
        None \<Rightarrow> 0
      | Some tbl \<Rightarrow> sum_list (map (\<lambda>i. length (tbl ! i)) [0 ..< tableSize t]))"

lemma noEqualIds_distinct: "noEqualIds (=) xs = distinct (map fst xs)"
  by (induction xs) (auto simp: list_all_iff image_iff)

lemma inv_distinct_entries: "tableInv H t \<Longrightarrow> distinct (map fst (entries t))"
proof (cases "pTable t")
  case None
  then show ?thesis by (simp add: entries_None)
next
  case (Some tbl)
  assume "tableInv H t"
  then show ?thesis using entries_concat [of H t tbl] invD(3) [of H t tbl] Some by simp
qed

lemma inv_nInUse_entries: "tableInv H t \<Longrightarrow> nInUse t = length (entries t)"
proof (cases "pTable t")
  case None
  assume "tableInv H t"
  then show ?thesis using None by (simp add: entries_None inv_None)
next
  case (Some tbl)
  assume "tableInv H t"
  then show ?thesis using entries_concat [of H t tbl] invD(4) [of H t tbl] Some by simp
qed

lemma chainTotal_entries: "chainTotal t = length (entries t)"
  by (cases "pTable t") (simp_all add: chainTotal_def entries_def length_concat comp_def)

lemma inv_bucketConsistent:
  assumes "tableInv H t"
  shows "bucketConsistent H t"
proof (cases "pTable t")
  case None
  then show ?thesis by (simp add: bucketConsistent_def)
next
  case (Some tbl)
  have "tableSize t \<le> length tbl" using invD(1) [OF assms Some] Some by (rule tableSize_le_length)
  then show ?thesis
    using invD(2) [OF assms Some] Some
    by (auto simp: bucketConsistent_def bucketsOk_def list_all_iff)
qed

lemma inv_verify:
  assumes "tableInv H t"
  shows "verify H t"
proof (cases "pTable t")
  case None
  then show ?thesis
    using inv_wf [OF assms] inv_None [OF assms None] by (simp add: verify_def wellFormed_def)
next
  case (Some tbl)
  note w = invD(1) [OF assms Some]
  let ?k = "nBitsHashIxSplitMask t"
  have k: "0 < ?k" "?k \<le> 30" "4 \<le> ?k" using wfD(1,2,3) [OF w Some] by simp_all
  have "?k - 1 \<le> 30" using k(2) by simp
  then have p: "(2::nat) ^ (?k - 1) \<le> 1073741824" by (rule pow_le_30)
  have m1: "hashIxMask t + 1 = 2 ^ (?k - 1)" using wfD(5) [OF w Some] by simp
  have a1: "nextSplitIndex t \<le> u32 (hashIxMask t + 1)"
    unfolding m1 using wfD(6) [OF w Some] p by (simp add: u32_id)
  have "(2::nat) ^ 3 \<le> 2 ^ (?k - 1)" using k(3) by (intro power_increasing) simp_all
  then have a2: "hashIxMask t \<noteq> 0" using wfD(5) [OF w Some] by simp
  have a3: "hashIxMask t = hashIxSplitMask t div 2"
    using wfD(4,5) [OF w Some] half_mask [OF k(1)] by simp
  have "(2::nat) ^ 1 \<le> 2 ^ ?k" using k(1) by (intro power_increasing) simp_all
  then have a4: "hashIxSplitMask t \<noteq> 0" using wfD(4) [OF w Some] by simp
  have a6: "resTableBitMask ?k = hashIxSplitMask t"
    using resTableBitMask_eq [OF k(2)] wfD(4) [OF w Some] by simp
  have a7: "logBaseTwoTableSize t \<noteq> 0" using wfD(2) [OF w Some] k(1) by simp
  have a9: "list_all (\<lambda>i. list_all (\<lambda>item. hash H t (fst item) = i) (tbl ! i)) [0 ..< tableSize t]"
    using inv_bucketConsistent [OF assms] Some by (simp add: bucketConsistent_def)
  have "sum_list (map (\<lambda>i. length (tbl ! i)) [0 ..< tableSize t]) = nInUse t"
    using chainTotal_entries [of t] inv_nInUse_entries [OF assms] Some by (simp add: chainTotal_def)
  moreover have "nInUse t < 4294967296" using invD(5) [OF assms Some] by simp
  ultimately have a10: "u32 (sum_list (map (\<lambda>i. length (tbl ! i)) [0 ..< tableSize t])) = nInUse t"
    by (simp add: u32_id)
  show ?thesis
    unfolding verify_def Let_def using Some a1 a2 a3 a4 k(1) a6 a7 wfD(2) [OF w Some] a9 a10
    by simp
qed

text \<open>
  C2. Every table reached by completed operations satisfies the three structural
  invariants: each entry of the first \<open>tableSize\<close> buckets hashes to the index of its
  bucket, no two resident entries have identifiers that compare equal, and
  \<open>numEntriesInstalled\<close> is the sum of the chain lengths. The self test \<^verbatim>\<open>verify\<close>
  passes, and a traversal returns the table as it was.
\<close>

theorem structural_invariants:
  assumes "\<And>x y. E x y = (x = y)" and "reachable H E t"
  shows "bucketConsistent H t \<and> noEqualIds E (entries t) \<and>
         numEntriesInstalled t = chainTotal t \<and> verify H t \<and> snd (traverse pCB t s) = t"
proof -
  have i: "tableInv H t" using assms by (rule reachable_inv)
  have e: "E = (=)" using assms(1) by (rule eq_is_equality)
  have "noEqualIds E (entries t)" unfolding e noEqualIds_distinct using i by (rule inv_distinct_entries)
  moreover have "numEntriesInstalled t = chainTotal t"
    using inv_nInUse_entries [OF i] by (simp add: numEntriesInstalled_def chainTotal_entries)
  ultimately show ?thesis
    using inv_bucketConsistent [OF i] inv_verify [OF i] by (simp add: traverse_def)
qed

theorem structural_invariants_witness:
  "reachable (\<lambda>x. x) (=) (fst (run (\<lambda>x. x) (=) ops10)) \<and>
   bucketConsistent (\<lambda>x. x) (fst (run (\<lambda>x. x) (=) ops10)) \<and>
   noEqualIds (=) (entries (fst (run (\<lambda>x. x) (=) ops10))) \<and>
   numEntriesInstalled (fst (run (\<lambda>x. x) (=) ops10)) = 10 \<and>
   chainTotal (fst (run (\<lambda>x. x) (=) ops10)) = 10 \<and>
   verify (\<lambda>x. x) (fst (run (\<lambda>x. x) (=) ops10))"
proof -
  have "numEntriesInstalled (fst (run (\<lambda>x. x) (=) ops10)) = 10"
    by (simp add: run_ops10 numEntriesInstalled_def)
  then show ?thesis
    using structural_invariants [where E = "(=)" and H = "\<lambda>x. x"
        and t = "fst (run (\<lambda>x. x) (=) ops10)" and pCB = "\<lambda>item n. Suc n" and s = "0 :: nat"]
      reachable_ops10
    by simp
qed

section \<open>Lookup between add and remove\<close>

lemma option_eqI: "(\<And>x. (a = Some x) = (b = Some x)) \<Longrightarrow> a = b"
  by (cases a; cases b) auto

definition agrees :: "('id \<Rightarrow> nat) \<Rightarrow> ('id, 'v) resTable \<Rightarrow> ('id \<rightharpoonup> 'id \<times> 'v) \<Rightarrow> bool" where
  "agrees H t m = (\<forall>i. lookup H (=) i t = m i)"

lemma agreesI:
  assumes "tableInv H t" "\<And>i x. (m i = Some x) = (x \<in> set (entries t) \<and> fst x = i)"
  shows "agrees H t m"
  unfolding agrees_def
proof
  fix i
  show "lookup H (=) i t = m i"
    by (rule option_eqI) (simp add: lookup_entries [OF assms(1)] assms(2))
qed

lemma agreesD:
  assumes "tableInv H t" "agrees H t m"
  shows "(m i = Some x) = (x \<in> set (entries t) \<and> fst x = i)"
  using assms(2) lookup_entries [OF assms(1), of i x] by (simp add: agrees_def)

lemma agrees_absent:
  assumes "tableInv H t" "agrees H t m"
  shows "(i \<in> fst ` set (entries t)) = (m i \<noteq> None)"
proof
  assume "i \<in> fst ` set (entries t)"
  then obtain x where "x \<in> set (entries t)" "fst x = i" by blast
  then have "m i = Some x" using agreesD [OF assms] by simp
  then show "m i \<noteq> None" by simp
next
  assume "m i \<noteq> None"
  then obtain x where "m i = Some x" by (cases "m i") simp_all
  then have "x \<in> set (entries t)" "fst x = i" using agreesD [OF assms] by simp_all
  then show "i \<in> fst ` set (entries t)" by blast
qed

lemma step_add:
  assumes "tableInv H t" "agrees H t m" "nInUse t < 1073741824"
  shows "tableInv H (fst (step H (=) (Add res allocOk) (t, m))) \<and>
         agrees H (fst (step H (=) (Add res allocOk) (t, m))) (snd (step H (=) (Add res allocOk) (t, m))) \<and>
         nInUse (fst (step H (=) (Add res allocOk) (t, m))) \<le> nInUse t + 1"
proof (cases "pTable t \<noteq> None \<or> allocOk")
  case False
  then have "add H (=) allocOk res t = Inl BadAlloc"
    using add_throws [OF inv_wf [OF assms(1)], of H "(=)" res] by simp
  then show ?thesis using assms(1,2) by simp
next
  case True
  from add_result [OF assms(1,3) True, of res] obtain st t' where
    a: "add H (=) allocOk res t = Inr (st, t')" and i': "tableInv H t'" and
    dup: "fst res \<in> fst ` set (entries t) \<longrightarrow>
            st = - 1 \<and> mset (entries t') = mset (entries t) \<and> nInUse t' = nInUse t" and
    new: "fst res \<notin> fst ` set (entries t) \<longrightarrow>
            st = 0 \<and> mset (entries t') = add_mset res (mset (entries t)) \<and> nInUse t' = nInUse t + 1"
    by blast
  show ?thesis
  proof (cases "fst res \<in> fst ` set (entries t)")
    case present: True
    then have "set_mset (mset (entries t')) = set_mset (mset (entries t))" using dup by simp
    then have s: "set (entries t') = set (entries t)" by simp
    have "agrees H t' m"
      using i' by (rule agreesI) (simp add: s agreesD [OF assms(1,2)])
    then show ?thesis using a i' dup present by simp
  next
    case absent: False
    then have "set_mset (mset (entries t')) = set_mset (add_mset res (mset (entries t)))"
      using new by simp
    then have s: "set (entries t') = insert res (set (entries t))" by simp
    have ab: "\<forall>y \<in> set (entries t). fst y \<noteq> fst res" using absent by (metis imageI)
    have "agrees H t' (m (fst res \<mapsto> res))"
      using i'
    proof (rule agreesI)
      fix i x
      show "((m (fst res \<mapsto> res)) i = Some x) = (x \<in> set (entries t') \<and> fst x = i)"
        using ab agreesD [OF assms(1,2), of i x] unfolding s by (cases "i = fst res") auto
    qed
    then show ?thesis using a i' new absent by simp
  qed
qed

lemma step_remove:
  assumes "tableInv H t" "agrees H t m"
  shows "tableInv H (fst (step H (=) (Remove i) (t, m))) \<and>
         agrees H (fst (step H (=) (Remove i) (t, m))) (snd (step H (=) (Remove i) (t, m))) \<and>
         nInUse (fst (step H (=) (Remove i) (t, m))) \<le> nInUse t"
proof -
  from remove_result [OF assms(1), of i] obtain t' where
    r: "remove H (=) i t = (lookup H (=) i t, t')" and i': "tableInv H t'" and
    c: "case lookup H (=) i t of
          None \<Rightarrow> t' = t
        | Some x \<Rightarrow> mset (entries t) = add_mset x (mset (entries t')) \<and> Suc (nInUse t') = nInUse t"
    by blast
  show ?thesis
  proof (cases "lookup H (=) i t")
    case None
    then have "m i = None" using assms(2) by (simp add: agrees_def)
    then have "m (i := None) = m" by (intro ext) simp
    then show ?thesis using r c None assms by simp
  next
    case (Some x)
    then have m: "mset (entries t) = add_mset x (mset (entries t'))" and
      n: "Suc (nInUse t') = nInUse t" using c by simp_all
    have x: "x \<in> set (entries t)" "fst x = i" using lookup_entries [OF assms(1), of i x] Some by simp_all
    have "set_mset (mset (entries t)) = set_mset (add_mset x (mset (entries t')))" using m by simp
    then have s: "set (entries t) = insert x (set (entries t'))" by simp
    have "mset (x # entries t') = mset (entries t)" using m by simp
    then have "distinct (map fst (x # entries t')) = distinct (map fst (entries t))"
      by (rule distinct_fst_mset)
    then have "fst x \<notin> fst ` set (entries t')" using inv_distinct_entries [OF assms(1)] by simp
    then have d: "\<forall>y \<in> set (entries t'). fst y \<noteq> fst x" by (metis imageI)
    have "agrees H t' (m (i := None))"
      using i'
    proof (rule agreesI)
      fix j y
      show "((m (i := None)) j = Some y) = (y \<in> set (entries t') \<and> fst y = j)"
        using d x(2) agreesD [OF assms(1,2), of j y] unfolding s by (cases "j = i") auto
    qed
    then show ?thesis using r i' n by simp
  qed
qed

lemma step_setTableSize:
  assumes "tableInv H t" "agrees H t m" "n \<le> 1073741824"
  shows "tableInv H (fst (step H (=) (SetTableSize n allocOk) (t, m))) \<and>
         agrees H (fst (step H (=) (SetTableSize n allocOk) (t, m)))
           (snd (step H (=) (SetTableSize n allocOk) (t, m))) \<and>
         nInUse (fst (step H (=) (SetTableSize n allocOk) (t, m))) \<le> nInUse t"
proof (cases "setTableSize allocOk n t")
  case (Inl e)
  then show ?thesis using assms(1,2) by simp
next
  case (Inr t')
  from setTableSize_result [OF assms(1,3) Inr]
  have i': "tableInv H t'" and e: "entries t' = entries t" and c: "nInUse t' = nInUse t" by simp_all
  have "agrees H t' m" using i' by (rule agreesI) (simp add: e agreesD [OF assms(1,2)])
  then show ?thesis using Inr i' c by simp
qed

fun sized :: "('id, 'v) operation \<Rightarrow> bool" where
  "sized (SetTableSize newTableSize allocOk) = (newTableSize \<le> 1073741824)"
| "sized (Add res allocOk) = True"
| "sized (Remove idIn) = True"

lemma step_agrees:
  assumes "tableInv H t" "agrees H t m" "nInUse t < 1073741824" "sized op"
  shows "tableInv H (fst (step H (=) op (t, m))) \<and>
         agrees H (fst (step H (=) op (t, m))) (snd (step H (=) op (t, m))) \<and>
         nInUse (fst (step H (=) op (t, m))) \<le> nInUse t + 1"
proof (cases op)
  case (Add res allocOk)
  then show ?thesis using step_add [OF assms(1-3), of res allocOk] by simp
next
  case (Remove i)
  then show ?thesis using step_remove [OF assms(1,2), of i] by simp
next
  case (SetTableSize n allocOk)
  then have "n \<le> 1073741824" using assms(4) by simp
  then show ?thesis using SetTableSize step_setTableSize [OF assms(1,2), of n allocOk] by simp
qed

lemma fold_agrees:
  assumes "tableInv H (fst s)" "agrees H (fst s) (snd s)" "nInUse (fst s) + length ops \<le> 1073741824"
    "list_all sized ops"
  shows "tableInv H (fst (fold (step H (=)) ops s)) \<and>
         agrees H (fst (fold (step H (=)) ops s)) (snd (fold (step H (=)) ops s))"
  using assms
proof (induction ops arbitrary: s)
  case Nil
  then show ?case by simp
next
  case (Cons op ops)
  obtain t m where s: "s = (t, m)" by (cases s)
  have n: "nInUse t < 1073741824" using Cons.prems(3) s by simp
  have o: "sized op" using Cons.prems(4) by simp
  from step_agrees [OF _ _ n o, of H m] Cons.prems(1,2) s
  have a: "tableInv H (fst (step H (=) op s))"
    "agrees H (fst (step H (=) op s)) (snd (step H (=) op s))"
    "nInUse (fst (step H (=) op s)) \<le> nInUse t + 1" by simp_all
  have b: "nInUse (fst (step H (=) op s)) + length ops \<le> 1073741824"
    using a(3) Cons.prems(3) s by simp
  have c: "list_all sized ops" using Cons.prems(4) by simp
  show ?case using Cons.IH [OF a(1,2) b c] by simp
qed

lemma agrees_empty: "agrees H resTable_new Map.empty"
  by (simp add: agrees_def lookup_def resTable_new_def)

text \<open>
  C1. Run any sequence of operations on a fresh table, and keep beside the table a map
  \<open>m\<close> that records an entry under its identifier when \<^verbatim>\<open>add\<close> returns 0 and forgets
  the identifier at each \<^verbatim>\<open>remove\<close> of it. At every point of the sequence \<^verbatim>\<open>lookup\<close> of
  an identifier returns what the map holds: the entry between a successful add and the
  next remove of the identifier, and nothing otherwise.
\<close>

theorem lookup_between_add_and_remove:
  assumes "\<And>x y. E x y = (x = y)" and "length ops \<le> 1073741824" and "list_all sized ops"
  shows "lookup H E idIn (fst (run H E ops)) = snd (run H E ops) idIn"
proof -
  have e: "E = (=)" using assms(1) by (rule eq_is_equality)
  have "agrees H (fst (fold (step H (=)) ops (resTable_new, Map.empty)))
          (snd (fold (step H (=)) ops (resTable_new, Map.empty)))"
    using fold_agrees [of H "(resTable_new, Map.empty)" ops] assms(2,3)
    by (simp add: inv_resTable_new agrees_empty) (simp add: resTable_new_def)
  then show ?thesis unfolding e run_def agrees_def by simp
qed

definition opsAB :: "(nat, string) operation list" where
  "opsAB = [SetTableSize 16 True, Add (5, ''a'') True, Add (7, ''b'') True, Add (5, ''c'') True,
            Remove 7, Remove 9]"

lemma run_opsAB:
  "snd (run (\<lambda>x. x) (=) opsAB) 5 = Some (5, ''a'') \<and> snd (run (\<lambda>x. x) (=) opsAB) 7 = None \<and>
   snd (run (\<lambda>x. x) (=) opsAB) 9 = None"
  by (simp add: opsAB_def eval_table remove_def)

theorem lookup_between_add_and_remove_witness:
  "lookup (\<lambda>x. x) (=) 5 (fst (run (\<lambda>x. x) (=) opsAB)) = Some (5, ''a'') \<and>
   lookup (\<lambda>x. x) (=) 7 (fst (run (\<lambda>x. x) (=) opsAB)) = None \<and>
   lookup (\<lambda>x. x) (=) 9 (fst (run (\<lambda>x. x) (=) opsAB)) = None"
proof -
  have "length opsAB \<le> 1073741824" "list_all sized opsAB" by (simp_all add: opsAB_def)
  then show ?thesis
    using lookup_between_add_and_remove [of "(=)" opsAB "\<lambda>x. x" 5]
      lookup_between_add_and_remove [of "(=)" opsAB "\<lambda>x. x" 7]
      lookup_between_add_and_remove [of "(=)" opsAB "\<lambda>x. x" 9] run_opsAB
    by simp
qed

section \<open>Adding a duplicate\<close>

text \<open>The entries in the order in which \<^verbatim>\<open>traverse\<close> calls back.\<close>

definition visited :: "('id, 'v) resTable \<Rightarrow> ('id \<times> 'v) list" where
  "visited t = fst (traverse (\<lambda>item acc. acc @ [item]) t [])"

lemma fold_snoc: "fold (\<lambda>item acc. acc @ [item]) xs ys = ys @ xs"
  by (induction xs arbitrary: ys) simp_all

lemma visited_entries: "visited t = entries t"
  by (simp add: visited_def traverse_def fold_snoc)

lemma inv_lookup_mset:
  assumes "tableInv H t" "tableInv H t'" "mset (entries t') = mset (entries t)"
  shows "lookup H (=) i t' = lookup H (=) i t"
proof (rule option_eqI)
  fix x
  have "set_mset (mset (entries t')) = set_mset (mset (entries t))" using assms(3) by simp
  then have "set (entries t') = set (entries t)" by simp
  then show "(lookup H (=) i t' = Some x) = (lookup H (=) i t = Some x)"
    by (simp add: lookup_entries [OF assms(1)] lookup_entries [OF assms(2)])
qed

lemma lookup_resident_iff:
  assumes "tableInv H t"
  shows "(lookup H (=) i t \<noteq> None) = (i \<in> fst ` set (entries t))"
proof
  assume "lookup H (=) i t \<noteq> None"
  then obtain x where "lookup H (=) i t = Some x" by (cases "lookup H (=) i t") simp_all
  then have "x \<in> set (entries t)" "fst x = i" using lookup_entries [OF assms] by simp_all
  then show "i \<in> fst ` set (entries t)" by (metis imageI)
next
  assume "i \<in> fst ` set (entries t)"
  then obtain x where "x \<in> set (entries t)" "fst x = i" by blast
  then have "lookup H (=) i t = Some x" using lookup_entries [OF assms] by simp
  then show "lookup H (=) i t \<noteq> None" by simp
qed

text \<open>
  C4, as amended. An \<^verbatim>\<open>add\<close> of an identifier that is resident returns -1; the number of
  installed entries, the resident entries and the result of every \<^verbatim>\<open>lookup\<close> are as
  before. The table itself is unchanged when the resident count is below the capacity.
  Otherwise it is the table that \<^verbatim>\<open>splitBucket\<close> returns, because \<^verbatim>\<open>add\<close> splits before it
  looks for the duplicate: the table unchanged when the split needs a larger bucket array
  and the allocation fails; in every other case a different table, whose capacity is one
  more, in which either \<^verbatim>\<open>nextSplitIndex\<close> has advanced by one under the same masks, or the
  masks have doubled and \<^verbatim>\<open>nextSplitIndex\<close> is 1.
\<close>

theorem duplicate_add_reported:
  assumes "\<And>x y. E x y = (x = y)" and "reachable H E t" and "nInUse t < 1073741824"
    and "lookup H E (fst res) t \<noteq> None"
  shows "\<exists>t'. add H E allocOk res t = Inr (- 1, t') \<and>
           numEntriesInstalled t' = numEntriesInstalled t \<and>
           mset (entries t') = mset (entries t) \<and>
           (\<forall>i. lookup H E i t' = lookup H E i t) \<and>
           (nInUse t < tableSize t \<longrightarrow> t' = t) \<and>
           (tableSize t \<le> nInUse t \<longrightarrow>
              splitBucket H allocOk t = Inr t' \<and>
              (if hashIxMask t < nextSplitIndex t \<and>
                  logBaseTwoTableSize t \<le> nBitsHashIxSplitMask t \<and> \<not> allocOk
               then t' = t
               else t' \<noteq> t \<and> tableSize t' = tableSize t + 1 \<and>
                    (if hashIxMask t < nextSplitIndex t
                     then nextSplitIndex t' = 1 \<and> hashIxMask t' = hashIxSplitMask t \<and>
                          hashIxSplitMask t' = 2 * hashIxSplitMask t + 1 \<and>
                          nBitsHashIxSplitMask t' = nBitsHashIxSplitMask t + 1
                     else nextSplitIndex t' = nextSplitIndex t + 1 \<and>
                          hashIxMask t' = hashIxMask t \<and>
                          hashIxSplitMask t' = hashIxSplitMask t \<and>
                          nBitsHashIxSplitMask t' = nBitsHashIxSplitMask t \<and>
                          logBaseTwoTableSize t' = logBaseTwoTableSize t)))"
proof -
  have e: "E = (=)" using assms(1) by (rule eq_is_equality)
  have i: "tableInv H t" using assms(1,2) by (rule reachable_inv)
  have p: "pTable t \<noteq> None" using assms(4) by (cases "pTable t") (simp_all add: lookup_None)
  then have p': "pTable t \<noteq> None \<or> allocOk" by simp
  obtain tbl where tbl: "pTable t = Some tbl" using p by blast
  have r: "fst res \<in> fst ` set (entries t)"
    using assms(4) lookup_resident_iff [OF i, of "fst res"] unfolding e by simp
  from add_result [OF i assms(3) p', of res] r obtain st t' where
    a: "add H (=) allocOk res t = Inr (st, t')" and i': "tableInv H t'" and
    d: "st = - 1" "mset (entries t') = mset (entries t)" "nInUse t' = nInUse t" by blast
  have l: "\<forall>i. lookup H (=) i t' = lookup H (=) i t"
    using inv_lookup_mset [OF i i' d(2)] by simp
  have u: "nInUse t < tableSize t \<longrightarrow> t' = t"
  proof
    assume n: "nInUse t < tableSize t"
    have "add H (=) allocOk res t = addToBucket H (=) res t" using n tbl by (simp add: add_def)
    moreover have "fst res \<in> fst ` set (concat tbl)" using r entries_concat [OF i tbl] by simp
    ultimately have "add H (=) allocOk res t = Inr (- 1, t)"
      using addToBucket_duplicate [OF i tbl] by simp
    then show "t' = t" using a by simp
  qed
  let ?failed = "hashIxMask t < nextSplitIndex t \<and>
                  logBaseTwoTableSize t \<le> nBitsHashIxSplitMask t \<and> \<not> allocOk"
  have v: "tableSize t \<le> nInUse t \<longrightarrow>
              splitBucket H allocOk t = Inr t' \<and>
              (if ?failed then t' = t
               else t' \<noteq> t \<and> tableSize t' = tableSize t + 1 \<and>
                    (if hashIxMask t < nextSplitIndex t
                     then nextSplitIndex t' = 1 \<and> hashIxMask t' = hashIxSplitMask t \<and>
                          hashIxSplitMask t' = 2 * hashIxSplitMask t + 1 \<and>
                          nBitsHashIxSplitMask t' = nBitsHashIxSplitMask t + 1
                     else nextSplitIndex t' = nextSplitIndex t + 1 \<and>
                          hashIxMask t' = hashIxMask t \<and>
                          hashIxSplitMask t' = hashIxSplitMask t \<and>
                          nBitsHashIxSplitMask t' = nBitsHashIxSplitMask t \<and>
                          logBaseTwoTableSize t' = logBaseTwoTableSize t))"
  proof
    assume n: "tableSize t \<le> nInUse t"
    note sa = split_allowed [OF inv_wf [OF i] tbl n assms(3)]
    from splitBucket_inv [OF i tbl sa, of allocOk] obtain t1 tbl1 where
      s: "splitBucket H allocOk t = Inr t1" and p1: "pTable t1 = Some tbl1" by blast
    have "add H (=) allocOk res t =
            (if find_res (=) (tbl1 ! hash H t1 (fst res)) (fst res) \<noteq> None then Inr (- 1, t1)
             else addToBucket H (=) res t1)"
      using n tbl s p1 by (simp add: add_def)
    then have "t' = t1"
      using a d(1) p1 by (simp add: addToBucket_def Let_def split: if_splits)
    then have s': "splitBucket H allocOk t = Inr t'" using s by simp
    from splitBucket_effect [OF i tbl sa, of allocOk] s'
    have f: "if ?failed then t' = t
            else tableSize t' = tableSize t + 1 \<and>
                 (if hashIxMask t < nextSplitIndex t
                  then nextSplitIndex t' = 1 \<and> hashIxMask t' = hashIxSplitMask t \<and>
                       hashIxSplitMask t' = 2 * hashIxSplitMask t + 1 \<and>
                       nBitsHashIxSplitMask t' = nBitsHashIxSplitMask t + 1
                  else nextSplitIndex t' = nextSplitIndex t + 1 \<and>
                       hashIxMask t' = hashIxMask t \<and>
                       hashIxSplitMask t' = hashIxSplitMask t \<and>
                       nBitsHashIxSplitMask t' = nBitsHashIxSplitMask t \<and>
                       logBaseTwoTableSize t' = logBaseTwoTableSize t)"
      by simp
    have "\<not> ?failed \<Longrightarrow> t' \<noteq> t"
    proof
      assume "\<not> ?failed" "t' = t"
      then have "tableSize t = tableSize t + 1" using f by auto
      then show False by simp
    qed
    then show "splitBucket H allocOk t = Inr t' \<and>
              (if ?failed then t' = t
               else t' \<noteq> t \<and> tableSize t' = tableSize t + 1 \<and>
                    (if hashIxMask t < nextSplitIndex t
                     then nextSplitIndex t' = 1 \<and> hashIxMask t' = hashIxSplitMask t \<and>
                          hashIxSplitMask t' = 2 * hashIxSplitMask t + 1 \<and>
                          nBitsHashIxSplitMask t' = nBitsHashIxSplitMask t + 1
                     else nextSplitIndex t' = nextSplitIndex t + 1 \<and>
                          hashIxMask t' = hashIxMask t \<and>
                          hashIxSplitMask t' = hashIxSplitMask t \<and>
                          nBitsHashIxSplitMask t' = nBitsHashIxSplitMask t \<and>
                          logBaseTwoTableSize t' = logBaseTwoTableSize t))"
      using s' f by (cases ?failed) simp_all
  qed
  have n: "numEntriesInstalled t' = numEntriesInstalled t"
    using d(3) by (simp add: numEntriesInstalled_def)
  show ?thesis
    unfolding e using a d(1,2) l u v n by blast
qed

definition opsDup :: "(nat, unit) operation list" where
  "opsDup = SetTableSize 16 True # map (\<lambda>i. Add (i, ()) True) [8, 1, 2, 3, 4, 5, 6, 7]"

definition tDup :: "(nat, unit) resTable" where
  "tDup = \<lparr> pTable = Some [[(8, ())], [(1, ())], [(2, ())], [(3, ())], [(4, ())], [(5, ())],
                           [(6, ())], [(7, ())], [], [], [], [], [], [], [], []],
            nextSplitIndex = 0, hashIxMask = 7, hashIxSplitMask = 15, nBitsHashIxSplitMask = 4,
            logBaseTwoTableSize = 4, nInUse = 8 \<rparr>"

definition tDupSplit :: "(nat, unit) resTable" where
  "tDupSplit = \<lparr> pTable = Some [[], [(1, ())], [(2, ())], [(3, ())], [(4, ())], [(5, ())],
                           [(6, ())], [(7, ())], [(8, ())], [], [], [], [], [], [], []],
            nextSplitIndex = 1, hashIxMask = 7, hashIxSplitMask = 15, nBitsHashIxSplitMask = 4,
            logBaseTwoTableSize = 4, nInUse = 8 \<rparr>"

lemma run_opsDup: "fst (run id (=) opsDup) = tDup"
  by (simp add: opsDup_def tDup_def eval_table)

lemma guarded_opsDup: "guarded id (=) opsDup (resTable_new, Map.empty)"
  by (simp add: opsDup_def eval_table)

lemma reachable_tDup: "reachable id (=) tDup"
  using reachable_run [OF guarded_opsDup] by (simp add: run_opsDup)

lemma add_tDup: "add id (=) True (8, ()) tDup = Inr (- 1, tDupSplit)"
  by (simp add: tDup_def tDupSplit_def eval_table)

theorem duplicate_add_counterexample:
  "reachable id (=) tDup \<and> lookup id (=) 8 tDup = Some (8, ()) \<and>
   add id (=) True (8, ()) tDup = Inr (- 1, tDupSplit) \<and> tDupSplit \<noteq> tDup \<and>
   lookup id (=) 8 tDupSplit = Some (8, ())"
proof -
  have "lookup id (=) 8 tDup = Some (8, ())"
    by (simp add: lookup_def hash_def Let_def tDup_def)
  moreover have "lookup id (=) 8 tDupSplit = Some (8, ())"
    by (simp add: lookup_def hash_def Let_def tDupSplit_def)
  moreover have "tDupSplit \<noteq> tDup" by (simp add: tDup_def tDupSplit_def)
  ultimately show ?thesis using reachable_tDup add_tDup by simp
qed

section \<open>Growth\<close>

lemma empty_tail:
  assumes "wellFormed t" "pTable t = Some tbl" "bucketsOk H t tbl"
  shows "drop (tableSize t) tbl = replicate (length tbl - tableSize t) []"
proof (rule nth_equalityI)
  show "length (drop (tableSize t) tbl) = length (replicate (length tbl - tableSize t) [])" by simp
next
  fix k assume k: "k < length (drop (tableSize t) tbl)"
  have "tbl ! (tableSize t + k) = []"
    using assms by (rule buckets_beyond_empty) (use k in simp_all)
  then show "drop (tableSize t) tbl ! k = replicate (length tbl - tableSize t) [] ! k"
    using k by simp
qed

lemma grownTable_append:
  assumes "tableInv H t" "pTable t = Some tbl" "logBaseTwoTableSize t < lg" "lg \<le> 30"
  shows "grownTable lg tbl t =
           t \<lparr> pTable := Some (tbl @ replicate (2 ^ lg - length tbl) []), logBaseTwoTableSize := lg \<rparr>"
proof -
  note w = invD(1) [OF assms(1,2)]
  let ?N = "tableSize t"
  have N: "?N \<le> length tbl" using w assms(2) by (rule tableSize_le_length)
  have "(2::nat) ^ logBaseTwoTableSize t \<le> 2 ^ lg"
    using assms(3) by (intro power_increasing) simp_all
  then have L: "length tbl \<le> 2 ^ lg" using wfD(7) [OF w assms(2)] by simp
  have "tbl = take ?N tbl @ drop ?N tbl" by simp
  also have "\<dots> = take ?N tbl @ replicate (length tbl - ?N) []"
    using empty_tail [OF w assms(2) invD(2) [OF assms(1,2)]] by simp
  finally have "tbl @ replicate (2 ^ lg - length tbl) [] =
      take ?N tbl @ replicate (length tbl - ?N) [] @ replicate (2 ^ lg - length tbl) []"
    by (metis append.assoc)
  also have "replicate (length tbl - ?N) [] @ replicate (2 ^ lg - length tbl) [] =
      (replicate (2 ^ lg - ?N) [] :: ('a \<times> 'b) list list)"
    using N L by (simp add: replicate_add [symmetric])
  finally show ?thesis by (simp add: grownTable_def)
qed

lemma setTableSizePrivate_storage:
  assumes "tableInv H t" "pTable t = Some tbl" "lgIn \<le> 30"
  shows "\<exists>b k lg. setTableSizePrivate allocOk lgIn t =
            Inr (b, t \<lparr> pTable := Some (tbl @ replicate k []), logBaseTwoTableSize := lg \<rparr>) \<and>
            logBaseTwoTableSize t \<le> lg"
proof -
  have same: "t = t \<lparr> pTable := Some (tbl @ replicate 0 []), logBaseTwoTableSize := logBaseTwoTableSize t \<rparr>"
    using assms(2) by simp
  show ?thesis
  proof (cases "lgIn \<le> logBaseTwoTableSize t")
    case True
    then have "setTableSizePrivate allocOk lgIn t = Inr (True, t)" by (rule setTableSizePrivate_noop)
    then show ?thesis using same by (metis order_refl)
  next
    case False
    then have lt: "logBaseTwoTableSize t < lgIn" by simp
    show ?thesis
    proof (cases allocOk)
      case False
      then have "setTableSizePrivate allocOk lgIn t = Inr (False, t)"
        using setTableSizePrivate_fail [OF lt] assms(2) by simp
      then show ?thesis using same by (metis order_refl)
    next
      case True
      then have "setTableSizePrivate allocOk lgIn t = Inr (True, grownTable lgIn tbl t)"
        using setTableSizePrivate_grow [OF invD(1) [OF assms(1,2)] assms(2) lt assms(3)] by simp
      then show ?thesis using grownTable_append [OF assms(1,2) lt assms(3)] lt
        by (metis less_imp_le)
    qed
  qed
qed

lemma setTableSize_storage:
  assumes "tableInv H t" "pTable t = Some tbl" "n \<le> 1073741824"
  shows "\<exists>k lg. setTableSize allocOk n t =
            Inr (t \<lparr> pTable := Some (tbl @ replicate k []), logBaseTwoTableSize := lg \<rparr>) \<and>
            logBaseTwoTableSize t \<le> lg"
proof (cases "n = 0")
  case True
  have "t = t \<lparr> pTable := Some (tbl @ replicate 0 []), logBaseTwoTableSize := logBaseTwoTableSize t \<rparr>"
    using assms(2) by simp
  moreover have "setTableSize allocOk n t = Inr t" using True by (simp add: setTableSize_def)
  ultimately show ?thesis by (metis order_refl)
next
  case False
  then have "n - 1 < 1073741824" using assms(3) by simp
  then have c: "countBits (n - 1) 0 \<le> 30" by (intro countBits_le) simp_all
  from setTableSizePrivate_storage [OF assms(1,2) c, of allocOk] obtain b k lg where
    "setTableSizePrivate allocOk (countBits (n - 1) 0) t =
       Inr (b, t \<lparr> pTable := Some (tbl @ replicate k []), logBaseTwoTableSize := lg \<rparr>)"
    "logBaseTwoTableSize t \<le> lg" by blast
  then show ?thesis using False by (auto simp: setTableSize_def Let_def)
qed

lemma hash_frame:
  "hash H (t \<lparr> pTable := p, logBaseTwoTableSize := lg \<rparr>) i = hash H t i"
  by (simp add: hash_def Let_def)

lemma tableSize_frame:
  "pTable t \<noteq> None \<Longrightarrow> tableSize (t \<lparr> pTable := Some tbl', logBaseTwoTableSize := lg \<rparr>) = tableSize t"
  by (simp add: tableSize_def)

text \<open>
  C10. On a reachable table that has storage, \<^verbatim>\<open>setTableSize\<close> returns normally and its
  result differs from the table in the bucket array, which is the old one followed by empty
  buckets, and in \<open>logBaseTwoTableSize\<close> only: every bucket index, \<open>tableSize\<close>, the number
  of installed entries and the entries are as before. On a table without storage a
  successful allocation sets the masks from the size of the new array.
\<close>

theorem setTableSize_frame:
  assumes "\<And>x y. E x y = (x = y)" and "reachable H E t" and "newTableSize \<le> 1073741824"
  shows "case pTable t of
           Some tbl \<Rightarrow>
             (\<exists>t' k lg. setTableSize allocOk newTableSize t = Inr t' \<and>
                t' = t \<lparr> pTable := Some (tbl @ replicate k []), logBaseTwoTableSize := lg \<rparr> \<and>
                logBaseTwoTableSize t \<le> lg \<and>
                hashIxMask t' = hashIxMask t \<and> hashIxSplitMask t' = hashIxSplitMask t \<and>
                nextSplitIndex t' = nextSplitIndex t \<and>
                (\<forall>idIn. hash H t' idIn = hash H t idIn) \<and>
                tableSize t' = tableSize t \<and>
                numEntriesInstalled t' = numEntriesInstalled t \<and>
                entries t' = entries t)
         | None \<Rightarrow>
             (\<forall>t'. setTableSize allocOk newTableSize t = Inr t' \<and> pTable t' \<noteq> None \<longrightarrow>
                hashIxSplitMask t' = resTableBitMask (logBaseTwoTableSize t') \<and>
                nBitsHashIxSplitMask t' = logBaseTwoTableSize t' \<and>
                hashIxMask t' = hashIxSplitMask t' div 2 \<and>
                nextSplitIndex t' = 0)"
proof (cases "pTable t")
  case (Some tbl)
  have i: "tableInv H t" using assms(1,2) by (rule reachable_inv)
  from setTableSize_storage [OF i Some assms(3), of allocOk] obtain k lg where
    s: "setTableSize allocOk newTableSize t =
          Inr (t \<lparr> pTable := Some (tbl @ replicate k []), logBaseTwoTableSize := lg \<rparr>)" and
    l: "logBaseTwoTableSize t \<le> lg" by blast
  let ?t' = "t \<lparr> pTable := Some (tbl @ replicate k []), logBaseTwoTableSize := lg \<rparr>"
  have e: "entries ?t' = entries t" using setTableSize_result [OF i assms(3) s] by simp
  have ts: "tableSize ?t' = tableSize t" using Some by (simp add: tableSize_def)
  have "\<exists>t' k lg. setTableSize allocOk newTableSize t = Inr t' \<and>
          t' = t \<lparr> pTable := Some (tbl @ replicate k []), logBaseTwoTableSize := lg \<rparr> \<and>
          logBaseTwoTableSize t \<le> lg \<and>
          hashIxMask t' = hashIxMask t \<and> hashIxSplitMask t' = hashIxSplitMask t \<and>
          nextSplitIndex t' = nextSplitIndex t \<and>
          (\<forall>idIn. hash H t' idIn = hash H t idIn) \<and>
          tableSize t' = tableSize t \<and>
          numEntriesInstalled t' = numEntriesInstalled t \<and>
          entries t' = entries t"
  proof (intro exI conjI)
    show "setTableSize allocOk newTableSize t = Inr ?t'" by (rule s)
    show "?t' = t \<lparr> pTable := Some (tbl @ replicate k []), logBaseTwoTableSize := lg \<rparr>"
      by (rule refl)
    show "logBaseTwoTableSize t \<le> lg" by (rule l)
    show "\<forall>idIn. hash H ?t' idIn = hash H t idIn" by (simp add: hash_frame)
    show "tableSize ?t' = tableSize t" by (rule ts)
    show "entries ?t' = entries t" by (rule e)
  qed (simp_all add: numEntriesInstalled_def)
  then show ?thesis using Some by simp
next
  case None
  have i: "tableInv H t" using assms(1,2) by (rule reachable_inv)
  have z: "logBaseTwoTableSize t = 0" using inv_wf [OF i] None by (simp add: wellFormed_def)
  have "hashIxSplitMask t' = resTableBitMask (logBaseTwoTableSize t') \<and>
        nBitsHashIxSplitMask t' = logBaseTwoTableSize t' \<and>
        hashIxMask t' = hashIxSplitMask t' div 2 \<and> nextSplitIndex t' = 0"
    if s: "setTableSize allocOk newTableSize t = Inr t'" and p: "pTable t' \<noteq> None" for t'
  proof -
    have n0: "newTableSize \<noteq> 0"
    proof
      assume "newTableSize = 0"
      then have "setTableSize allocOk newTableSize t = Inr t" by (simp add: setTableSize_def)
      then show False using s p None by simp
    qed
    let ?lgIn = "countBits (newTableSize - 1) 0"
    have "newTableSize - 1 < 1073741824" using n0 assms(3) by simp
    then have c: "?lgIn \<le> 30" by (intro countBits_le) simp_all
    obtain b where sp: "setTableSizePrivate allocOk ?lgIn t = Inr (b, t')"
      using s n0 by (auto simp: setTableSize_def Let_def split: sum.splits)
    have lt: "logBaseTwoTableSize t < ?lgIn"
    proof (rule ccontr)
      assume "\<not> logBaseTwoTableSize t < ?lgIn"
      then have "setTableSizePrivate allocOk ?lgIn t = Inr (True, t)"
        by (intro setTableSizePrivate_noop) simp
      then show False using sp p None by simp
    qed
    have ok: allocOk
    proof (rule ccontr)
      assume "\<not> allocOk"
      then show False using setTableSizePrivate_fail [OF lt] sp None by simp
    qed
    let ?lg = "max 4 ?lgIn"
    have t': "t' = firstTable ?lg t"
      using setTableSizePrivate_first [OF None lt c] sp ok by simp
    have lg: "?lg \<le> 30" "0 < ?lg" using c by simp_all
    show ?thesis
      unfolding t' using resTableBitMask_eq [OF lg(1)] half_mask [OF lg(2)]
      by (simp add: firstTable_def)
  qed
  then show ?thesis using None by simp
qed

text \<open>
  C5. A growth event on a reachable table loses no entry and duplicates none: the entries
  that a full traversal visits after \<^verbatim>\<open>splitBucket\<close> (with or without doubling of the
  bucket array) are a permutation of those visited before, after \<^verbatim>\<open>setTableSize\<close> they
  are the same list, after an \<^verbatim>\<open>add\<close> they are the old ones and, when it returned 0, the
  new entry; and no entry is visited twice.
\<close>

theorem growth_preserves_entries:
  assumes "\<And>x y. E x y = (x = y)" and "reachable H E t"
  shows "(pTable t \<noteq> None \<and> (hashIxMask t < nextSplitIndex t \<longrightarrow> nBitsHashIxSplitMask t < 30) \<longrightarrow>
            (\<exists>t'. splitBucket H allocOk t = Inr t' \<and> mset (visited t') = mset (visited t) \<and>
               distinct (visited t'))) \<and>
         (\<forall>t'. newTableSize \<le> 1073741824 \<and> setTableSize allocOk newTableSize t = Inr t' \<longrightarrow>
            visited t' = visited t) \<and>
         (\<forall>status t'. nInUse t < 1073741824 \<and> add H E allocOk res t = Inr (status, t') \<longrightarrow>
            mset (visited t') =
              (if status = 0 then add_mset res (mset (visited t)) else mset (visited t)) \<and>
            distinct (visited t')) \<and>
         distinct (visited t)"
proof -
  have e: "E = (=)" using assms(1) by (rule eq_is_equality)
  have i: "tableInv H t" using assms(1,2) by (rule reachable_inv)
  have d: "distinct xs" if "distinct (map fst xs)" for xs :: "('a \<times> 'b) list"
    using that by (rule distinct_map [THEN iffD1, THEN conjunct1])
  have dv: "distinct (visited t')" if "tableInv H t'" for t' :: "('a, 'b) resTable"
    unfolding visited_entries using inv_distinct_entries [OF that] by (rule d)
  have A: "\<exists>t'. splitBucket H allocOk t = Inr t' \<and> mset (visited t') = mset (visited t) \<and>
               distinct (visited t')"
    if p: "pTable t \<noteq> None" and r: "hashIxMask t < nextSplitIndex t \<longrightarrow> nBitsHashIxSplitMask t < 30"
  proof -
    obtain tbl where tbl: "pTable t = Some tbl" using p by blast
    note w = invD(1) [OF i tbl]
    have "nextSplitIndex t < 2 ^ (nBitsHashIxSplitMask t - 1) \<or> nBitsHashIxSplitMask t < 30"
      using r needs_doubling [OF w tbl] wfD(6) [OF w tbl] by fastforce
    from splitBucket_inv [OF i tbl this, of allocOk] obtain t' tbl' where
      s: "splitBucket H allocOk t = Inr t'" and i': "tableInv H t'" and p': "pTable t' = Some tbl'" and
      m: "mset (concat tbl') = mset (concat tbl)" by blast
    have "mset (visited t') = mset (visited t)"
      unfolding visited_entries using m entries_concat [OF i tbl] entries_concat [OF i' p'] by simp
    then show ?thesis using s dv [OF i'] by simp
  qed
  have B: "visited t' = visited t"
    if "newTableSize \<le> 1073741824" "setTableSize allocOk newTableSize t = Inr t'" for t'
    unfolding visited_entries using setTableSize_result [OF i that] by simp
  have C: "mset (visited t') =
             (if status = 0 then add_mset res (mset (visited t)) else mset (visited t)) \<and>
           distinct (visited t')"
    if n: "nInUse t < 1073741824" and a: "add H E allocOk res t = Inr (status, t')" for status t'
  proof -
    have p: "pTable t \<noteq> None \<or> allocOk"
    proof (rule ccontr)
      assume "\<not> (pTable t \<noteq> None \<or> allocOk)"
      then have "add H E allocOk res t = Inl BadAlloc"
        using add_throws [OF inv_wf [OF i], of H E res] by simp
      then show False using a by simp
    qed
    from add_result [OF i n p, of res] a show ?thesis
      unfolding e visited_entries using dv [unfolded visited_entries] by (auto split: if_splits)
  qed
  show ?thesis using A B C dv [OF i] by blast
qed

section \<open>Allocation failure\<close>

lemma countBits_ge: "nbits \<le> countBits newMask nbits"
proof (induction newMask nbits rule: countBits.induct)
  case (1 newMask nbits)
  show ?case
  proof (cases "nbits < 32 \<and> newMask AND (4294967295 - resTableBitMask nbits) \<noteq> 0")
    case True
    then have "countBits newMask nbits = countBits newMask (nbits + 1)"
      by (subst countBits.simps) simp
    moreover have "nbits + 1 \<le> countBits newMask (nbits + 1)" using True by (intro "1.IH") simp_all
    ultimately show ?thesis by simp
  next
    case False
    then have "countBits newMask nbits = nbits" by (subst countBits.simps) auto
    then show ?thesis by simp
  qed
qed

lemma countBits_pos:
  assumes "0 < newMask" "newMask < 4294967296"
  shows "0 < countBits newMask 0"
proof -
  have "newMask AND (2 ^ 32 - 1) = newMask mod 2 ^ 32" by (rule and_mask_mod)
  then have "newMask AND 4294967295 = newMask" using assms(2) by simp
  moreover have "resTableBitMask 0 = 0" by (simp add: resTableBitMask_def u32_def)
  ultimately have "countBits newMask 0 = countBits newMask 1"
    using assms(1) by (subst countBits.simps) simp
  then show ?thesis using countBits_ge [of 1 newMask] by simp
qed

lemma setTableSize_fails_without_storage:
  assumes "wellFormed t" "pTable t = None" "2 \<le> n" "n \<le> 4294967296"
  shows "setTableSize False n t = Inl BadAlloc"
proof -
  have "0 < countBits (n - 1) 0" using assms(3,4) by (intro countBits_pos) simp_all
  moreover have "logBaseTwoTableSize t = 0" using assms(1,2) by (simp add: wellFormed_def)
  ultimately have "setTableSizePrivate False (countBits (n - 1) 0) t = Inl BadAlloc"
    using assms(2) by (simp add: setTableSizePrivate_fail)
  then show ?thesis using assms(3) by (simp add: setTableSize_def Let_def)
qed

lemma setTableSize_fails_with_storage:
  assumes "pTable t \<noteq> None"
  shows "setTableSize False n t = Inr t"
proof (cases "n = 0")
  case True
  then show ?thesis by (simp add: setTableSize_def)
next
  case False
  obtain tbl where "pTable t = Some tbl" using assms by blast
  then have "setTableSizePrivate False (countBits (n - 1) 0) t = Inr (True, t) \<or>
        setTableSizePrivate False (countBits (n - 1) 0) t = Inr (False, t)"
    by (simp add: setTableSizePrivate_def Let_def)
  then show ?thesis using False by (auto simp: setTableSize_def Let_def)
qed

lemma add_growth_failed:
  assumes "wellFormed t" "pTable t = Some tbl" "tableSize t \<le> nInUse t"
    "hashIxMask t < nextSplitIndex t" "logBaseTwoTableSize t \<le> nBitsHashIxSplitMask t"
  shows "splitBucket H False t = Inr t" and "add H E False res t = addToBucket H E res t"
proof -
  have n: "nextSplitIndex t = 2 ^ (nBitsHashIxSplitMask t - 1)"
    using needs_doubling [OF assms(1,2)] assms(4) by simp
  have l: "logBaseTwoTableSize t < nBitsHashIxSplitMask t + 1" using assms(5) by simp
  show s: "splitBucket H False t = Inr t" using assms(1,2) n l by (rule splitBucket_growth_failed)
  show "add H E False res t = addToBucket H E res t"
    using assms(2,3) s by (simp add: add_def addToBucket_def Let_def)
qed

text \<open>
  C6. When the allocation fails on a reachable table that has no storage, \<^verbatim>\<open>add\<close> (and a
  \<^verbatim>\<open>setTableSize\<close> that has to allocate) ends with the exception. When it fails on a
  table with storage, \<^verbatim>\<open>setTableSize\<close> returns with the table unchanged; and an \<^verbatim>\<open>add\<close>
  whose split step has to double the bucket array abandons the split, leaves the table as
  it is, and goes on as an \<^verbatim>\<open>add\<close> without split: an absent identifier is installed
  with status 0 in a table of the same capacity, and is found afterwards.
\<close>

theorem allocation_failure:
  assumes "\<And>x y. E x y = (x = y)" and "reachable H E t"
  shows "(pTable t = None \<longrightarrow>
            add H E False res t = Inl BadAlloc \<and>
            (2 \<le> newTableSize \<and> newTableSize \<le> 4294967296 \<longrightarrow>
               setTableSize False newTableSize t = Inl BadAlloc)) \<and>
         (pTable t \<noteq> None \<longrightarrow>
            setTableSize False newTableSize t = Inr t \<and>
            (tableSize t \<le> nInUse t \<and> nInUse t < 1073741824 \<and>
             hashIxMask t < nextSplitIndex t \<and> logBaseTwoTableSize t \<le> nBitsHashIxSplitMask t \<longrightarrow>
               splitBucket H False t = Inr t \<and>
               add H E False res t = addToBucket H E res t \<and>
               (lookup H E (fst res) t = None \<longrightarrow>
                  (\<exists>t'. add H E False res t = Inr (0, t') \<and>
                     tableSize t' = tableSize t \<and>
                     logBaseTwoTableSize t' = logBaseTwoTableSize t \<and>
                     mset (entries t') = add_mset res (mset (entries t)) \<and>
                     numEntriesInstalled t' = numEntriesInstalled t + 1 \<and>
                     lookup H E (fst res) t' = Some res))))"
proof -
  have e: "E = (=)" using assms(1) by (rule eq_is_equality)
  have i: "tableInv H t" using assms(1,2) by (rule reachable_inv)
  note w = inv_wf [OF i]
  have A: "add H E False res t = Inl BadAlloc" if "pTable t = None"
    using w that by (rule add_throws)
  have B: "setTableSize False newTableSize t = Inl BadAlloc"
    if "pTable t = None" "2 \<le> newTableSize" "newTableSize \<le> 4294967296"
    using w that by (rule setTableSize_fails_without_storage)
  have C: "setTableSize False newTableSize t = Inr t" if "pTable t \<noteq> None"
    using that by (rule setTableSize_fails_with_storage)
  have D: "splitBucket H False t = Inr t \<and> add H E False res t = addToBucket H E res t \<and>
           (lookup H E (fst res) t = None \<longrightarrow>
              (\<exists>t'. add H E False res t = Inr (0, t') \<and> tableSize t' = tableSize t \<and>
                 logBaseTwoTableSize t' = logBaseTwoTableSize t \<and>
                 mset (entries t') = add_mset res (mset (entries t)) \<and>
                 numEntriesInstalled t' = numEntriesInstalled t + 1 \<and>
                 lookup H E (fst res) t' = Some res))"
    if p: "pTable t \<noteq> None" and f: "tableSize t \<le> nInUse t" and n: "nInUse t < 1073741824"
      and g: "hashIxMask t < nextSplitIndex t" "logBaseTwoTableSize t \<le> nBitsHashIxSplitMask t"
  proof -
    obtain tbl where tbl: "pTable t = Some tbl" using p by blast
    have a: "splitBucket H False t = Inr t" "add H E False res t = addToBucket H E res t"
      using w tbl f g by (rule add_growth_failed)+
    have "\<exists>t'. add H E False res t = Inr (0, t') \<and> tableSize t' = tableSize t \<and>
                 logBaseTwoTableSize t' = logBaseTwoTableSize t \<and>
                 mset (entries t') = add_mset res (mset (entries t)) \<and>
                 numEntriesInstalled t' = numEntriesInstalled t + 1 \<and>
                 lookup H E (fst res) t' = Some res"
      if l: "lookup H E (fst res) t = None"
    proof -
      have "fst res \<notin> fst ` set (entries t)"
        using l lookup_resident_iff [OF i, of "fst res"] unfolding e by simp
      then have ab: "fst res \<notin> fst ` set (concat tbl)" using entries_concat [OF i tbl] by simp
      let ?t' = "linked H res tbl t"
      have i': "tableInv H ?t'" using i tbl ab n by (rule inv_linked)
      have m: "mset (entries ?t') = add_mset res (mset (entries t))"
        using i tbl ab n by (rule entries_linked)
      have "set_mset (mset (entries ?t')) = set_mset (add_mset res (mset (entries t)))"
        using m by simp
      then have "res \<in> set (entries ?t')" by simp
      then have lk: "lookup H (=) (fst res) ?t' = Some res" using lookup_entries [OF i'] by simp
      have "add H E False res t = Inr (0, ?t')"
        using a(2) addToBucket_new [OF i tbl ab n] unfolding e by simp
      moreover have "tableSize ?t' = tableSize t" using tbl by (simp add: tableSize_def linked_def)
      moreover have "logBaseTwoTableSize ?t' = logBaseTwoTableSize t" by (simp add: linked_def)
      moreover have "numEntriesInstalled ?t' = numEntriesInstalled t + 1"
        by (simp add: numEntriesInstalled_def linked_def)
      ultimately show ?thesis using m lk unfolding e by blast
    qed
    then show ?thesis using a by blast
  qed
  show ?thesis using A B C D by blast
qed

section \<open>Growth and allocation failure on concrete tables\<close>

definition ops16 :: "(nat, unit) operation list" where
  "ops16 = SetTableSize 16 True #
     map (\<lambda>i. Add (i, ()) True) [0, 1, 2, 3, 4, 5, 6, 7, 8, 9, 10, 11, 12, 13, 14, 15]"

definition tFull :: "(nat, unit) resTable" where
  "tFull = \<lparr> pTable = Some [[(0, ())], [(1, ())], [(2, ())], [(3, ())], [(4, ())], [(5, ())],
               [(6, ())], [(7, ())], [(8, ())], [(9, ())], [(10, ())], [(11, ())], [(12, ())],
               [(13, ())], [(14, ())], [(15, ())]],
             nextSplitIndex = 8, hashIxMask = 7, hashIxSplitMask = 15, nBitsHashIxSplitMask = 4,
             logBaseTwoTableSize = 4, nInUse = 16 \<rparr>"

lemma run_ops16: "fst (run (\<lambda>x. x) (=) ops16) = tFull"
  by (simp add: ops16_def tFull_def eval_table)

lemma guarded_ops16: "guarded (\<lambda>x. x) (=) ops16 (resTable_new, Map.empty)"
  by (simp add: ops16_def eval_table)

lemma reachable_tFull: "reachable (\<lambda>x. x) (=) tFull"
  using reachable_run [OF guarded_ops16] by (simp add: run_ops16)

definition tDoubled :: "(nat, unit) resTable" where
  "tDoubled = \<lparr> pTable = Some ([[(0, ())], [(1, ())], [(2, ())], [(3, ())], [(4, ())], [(5, ())],
               [(6, ())], [(7, ())], [(8, ())], [(9, ())], [(10, ())], [(11, ())], [(12, ())],
               [(13, ())], [(14, ())], [(15, ())]] @ replicate 16 []),
             nextSplitIndex = 1, hashIxMask = 15, hashIxSplitMask = 31, nBitsHashIxSplitMask = 5,
             logBaseTwoTableSize = 5, nInUse = 16 \<rparr>"

lemma splitBucket_tFull: "splitBucket (\<lambda>x. x) True tFull = Inr tDoubled"
  by (simp add: tFull_def tDoubled_def eval_table)

theorem growth_preserves_entries_witness:
  "splitBucket (\<lambda>x. x) True tFull = Inr tDoubled \<and>
   logBaseTwoTableSize tFull = 4 \<and> logBaseTwoTableSize tDoubled = 5 \<and>
   mset (visited tDoubled) = mset (visited tFull) \<and> distinct (visited tDoubled) \<and>
   distinct (visited tFull)"
proof -
  have "pTable tFull \<noteq> None" "nBitsHashIxSplitMask tFull < 30" by (simp_all add: tFull_def)
  then show ?thesis
    using growth_preserves_entries [where E = "(=)" and H = "\<lambda>x. x" and t = tFull
        and allocOk = True and newTableSize = 0 and res = "(0, ())"]
      reachable_tFull splitBucket_tFull
    by (simp add: tFull_def tDoubled_def)
qed

theorem duplicate_add_reported_witness:
  "(add id (=) True (8, ()) tDup = Inr (- 1, tDupSplit) \<and>
    splitBucket id True tDup = Inr tDupSplit \<and>
    numEntriesInstalled tDupSplit = numEntriesInstalled tDup \<and>
    mset (entries tDupSplit) = mset (entries tDup) \<and>
    lookup id (=) 3 tDupSplit = lookup id (=) 3 tDup \<and>
    tableSize tDupSplit = tableSize tDup + 1) \<and>
   (add (\<lambda>x. x) (=) False (0, ()) tFull = Inr (- 1, tFull) \<and>
    splitBucket (\<lambda>x. x) False tFull = Inr tFull) \<and>
   (add (\<lambda>x. x) (=) True (0, ()) tFull = Inr (- 1, tDoubled) \<and>
    tableSize tDoubled = tableSize tFull + 1 \<and> nextSplitIndex tDoubled = 1)"
proof -
  have a: "nInUse tDup < 1073741824" "tableSize tDup \<le> nInUse tDup"
    "\<not> hashIxMask tDup < nextSplitIndex tDup"
    by (simp_all add: tDup_def tableSize_def u32_def)
  have b: "lookup id (=) (fst (8 :: nat, ())) tDup \<noteq> None"
    by (simp add: lookup_def hash_def Let_def tDup_def)
  have A: "add id (=) True (8, ()) tDup = Inr (- 1, tDupSplit) \<and>
    splitBucket id True tDup = Inr tDupSplit \<and>
    numEntriesInstalled tDupSplit = numEntriesInstalled tDup \<and>
    mset (entries tDupSplit) = mset (entries tDup) \<and>
    lookup id (=) 3 tDupSplit = lookup id (=) 3 tDup \<and>
    tableSize tDupSplit = tableSize tDup + 1"
    using duplicate_add_reported [of "(=)" id tDup "(8, ())" True, OF refl reachable_tDup a(1) b]
      add_tDup a(2,3)
    by auto
  have c: "nInUse tFull < 1073741824" "tableSize tFull \<le> nInUse tFull"
    "hashIxMask tFull < nextSplitIndex tFull"
    "logBaseTwoTableSize tFull \<le> nBitsHashIxSplitMask tFull"
    by (simp_all add: tFull_def tableSize_def u32_def)
  have d: "lookup (\<lambda>x. x) (=) (fst (0 :: nat, ())) tFull \<noteq> None"
    by (simp add: lookup_def hash_def Let_def tFull_def)
  have B: "add (\<lambda>x. x) (=) False (0, ()) tFull = Inr (- 1, tFull) \<and>
    splitBucket (\<lambda>x. x) False tFull = Inr tFull"
    using duplicate_add_reported [of "(=)" "\<lambda>x. x" tFull "(0, ())" False,
        OF refl reachable_tFull c(1) d] c(2,3,4)
    by auto
  have C: "add (\<lambda>x. x) (=) True (0, ()) tFull = Inr (- 1, tDoubled) \<and>
    tableSize tDoubled = tableSize tFull + 1 \<and> nextSplitIndex tDoubled = 1"
    using duplicate_add_reported [of "(=)" "\<lambda>x. x" tFull "(0, ())" True,
        OF refl reachable_tFull c(1) d] c(2,3,4) splitBucket_tFull
    by auto
  show ?thesis using A B C by blast
qed

lemma countBits_63: "countBits 63 0 = 6"
  by (simp add: countBits.simps resTableBitMask_def u32_def)

definition tResized :: "(nat, unit) resTable" where
  "tResized = (fst (run (\<lambda>x. x) (=) ops10))
     \<lparr> pTable := Some ([[(0, ())], [(1, ())], [(2, ())], [(3, ())], [(4, ())], [(5, ())], [(6, ())],
                      [(7, ())], [(8, ())], [(9, ())], [], [], [], [], [], []] @ replicate 48 []),
       logBaseTwoTableSize := 6 \<rparr>"

lemma setTableSize_t10: "setTableSize True 64 (fst (run (\<lambda>x. x) (=) ops10)) = Inr tResized"
  by (simp add: tResized_def run_ops10 setTableSize_def countBits_63 setTableSizePrivate_def
      tableSize_def u32_def Let_def eval_list)

theorem setTableSize_frame_witness:
  "setTableSize True 64 (fst (run (\<lambda>x. x) (=) ops10)) = Inr tResized \<and>
   logBaseTwoTableSize (fst (run (\<lambda>x. x) (=) ops10)) = 4 \<and> logBaseTwoTableSize tResized = 6 \<and>
   hash (\<lambda>x. x) tResized 9 = hash (\<lambda>x. x) (fst (run (\<lambda>x. x) (=) ops10)) 9 \<and>
   tableSize tResized = tableSize (fst (run (\<lambda>x. x) (=) ops10)) \<and>
   numEntriesInstalled tResized = numEntriesInstalled (fst (run (\<lambda>x. x) (=) ops10)) \<and>
   entries tResized = entries (fst (run (\<lambda>x. x) (=) ops10))"
proof -
  have a: "logBaseTwoTableSize (fst (run (\<lambda>x. x) (=) ops10)) = 4" "logBaseTwoTableSize tResized = 6"
    by (simp_all add: tResized_def run_ops10)
  have p: "pTable (fst (run (\<lambda>x. x) (=) ops10)) =
      Some [[(0, ())], [(1, ())], [(2, ())], [(3, ())], [(4, ())], [(5, ())], [(6, ())],
            [(7, ())], [(8, ())], [(9, ())], [], [], [], [], [], []]"
    by (simp add: run_ops10)
  have "(64::nat) \<le> 1073741824" by simp
  then show ?thesis
    using setTableSize_frame [where E = "(=)" and H = "\<lambda>x. x"
        and t = "fst (run (\<lambda>x. x) (=) ops10)" and allocOk = True and newTableSize = 64]
      reachable_ops10 setTableSize_t10 a
    unfolding p by auto
qed

theorem allocation_failure_witness:
  "add (\<lambda>x. x) (=) False (16 :: nat, ()) resTable_new = Inl BadAlloc \<and>
   setTableSize False 16 (resTable_new :: (nat, unit) resTable) = Inl BadAlloc \<and>
   splitBucket (\<lambda>x. x) False tFull = Inr tFull \<and>
   setTableSize False 64 tFull = Inr tFull \<and>
   (\<exists>t'. add (\<lambda>x. x) (=) False (16, ()) tFull = Inr (0, t') \<and>
      tableSize t' = tableSize tFull \<and>
      logBaseTwoTableSize t' = logBaseTwoTableSize tFull \<and>
      mset (entries t') = add_mset (16, ()) (mset (entries tFull)) \<and>
      numEntriesInstalled t' = numEntriesInstalled tFull + 1 \<and>
      lookup (\<lambda>x. x) (=) 16 t' = Some (16, ()))"
proof -
  have a: "pTable (resTable_new :: (nat, unit) resTable) = None" by (simp add: resTable_new_def)
  have b: "pTable tFull \<noteq> None" "tableSize tFull \<le> nInUse tFull" "nInUse tFull < 1073741824"
    "hashIxMask tFull < nextSplitIndex tFull"
    "logBaseTwoTableSize tFull \<le> nBitsHashIxSplitMask tFull"
    by (simp_all add: tFull_def tableSize_def u32_def)
  have c: "lookup (\<lambda>x. x) (=) (fst (16 :: nat, ())) tFull = None"
    by (simp add: tFull_def lookup_def hash_def Let_def)
  have r: "reachable (\<lambda>x. x) (=) (resTable_new :: (nat, unit) resTable)"
    by (rule reachable.constructed)
  have n: "(2::nat) \<le> 16 \<and> (16::nat) \<le> 4294967296" by simp
  from allocation_failure [where E = "(=)" and H = "\<lambda>x. x"
      and t = "resTable_new :: (nat, unit) resTable" and res = "(16, ())" and newTableSize = 16, OF refl r]
    a n
  have A: "add (\<lambda>x. x) (=) False (16 :: nat, ()) resTable_new = Inl BadAlloc"
    "setTableSize False 16 (resTable_new :: (nat, unit) resTable) = Inl BadAlloc" by blast+
  from allocation_failure [where E = "(=)" and H = "\<lambda>x. x" and t = tFull
      and res = "(16, ())" and newTableSize = 64, OF refl reachable_tFull] b c
  have B: "splitBucket (\<lambda>x. x) False tFull = Inr tFull" "setTableSize False 64 tFull = Inr tFull"
    "\<exists>t'. add (\<lambda>x. x) (=) False (16, ()) tFull = Inr (0, t') \<and>
      tableSize t' = tableSize tFull \<and>
      logBaseTwoTableSize t' = logBaseTwoTableSize tFull \<and>
      mset (entries t') = add_mset (16, ()) (mset (entries tFull)) \<and>
      numEntriesInstalled t' = numEntriesInstalled tFull + 1 \<and>
      lookup (\<lambda>x. x) (=) (fst (16 :: nat, ())) t' = Some (16, ())" by blast+
  show ?thesis using A B by simp
qed

section \<open>A table without storage\<close>

text \<open>
  C9. On a freshly constructed table, on which no storage has been allocated, \<^verbatim>\<open>lookup\<close>
  and \<^verbatim>\<open>remove\<close> of any identifier return the null result without touching a bucket,
  the table is unchanged by \<^verbatim>\<open>remove\<close>, and the number of installed entries stays 0.
\<close>

theorem no_storage_lookup_remove:
  "lookup H E idIn resTable_new = None \<and>
   remove H E idIn resTable_new = (None, resTable_new) \<and>
   numEntriesInstalled (snd (remove H E idIn (resTable_new :: ('id, 'v) resTable))) = 0"
  by (simp add: lookup_def remove_def resTable_new_def numEntriesInstalled_def)

section \<open>Identifier classes\<close>

text \<open>
  \<^verbatim>\<open>integerHash\<close>: the do-while loop halves \<open>width\<close> and folds the upper bits into the lower
  ones until \<open>width\<close> is at most \<open>MIN_INDEX_WIDTH\<close>.
\<close>

function integerHashLoop :: "nat \<Rightarrow> nat \<Rightarrow> nat \<Rightarrow> nat" where
  "integerHashLoop MIN_INDEX_WIDTH width hashid =
     (let width' = drop_bit 1 width;
          hashid' = hashid XOR drop_bit width' hashid
      in if width' > MIN_INDEX_WIDTH then integerHashLoop MIN_INDEX_WIDTH width' hashid'
         else hashid')"
  by pat_completeness auto
termination
proof (relation "measure (\<lambda>(MIN_INDEX_WIDTH, width, hashid). width)")
  show "wf (measure (\<lambda>(MIN_INDEX_WIDTH, width, hashid). width))" by simp
next
  fix MIN_INDEX_WIDTH width hashid :: nat and x xa
  assume "x = drop_bit 1 width" "MIN_INDEX_WIDTH < x"
  then have "0 < width div 2" by (simp add: drop_bit_eq_div)
  then have "width div 2 < width" by simp
  then show "((MIN_INDEX_WIDTH, x, xa), MIN_INDEX_WIDTH, width, hashid)
          \<in> measure (\<lambda>(MIN_INDEX_WIDTH, width, hashid). width)"
    using \<open>x = drop_bit 1 width\<close> by (simp add: drop_bit_eq_div)
qed

declare integerHashLoop.simps [simp del]

definition integerHash :: "nat \<Rightarrow> nat \<Rightarrow> nat \<Rightarrow> nat" where
  "integerHash MIN_INDEX_WIDTH MAX_ID_WIDTH ident = integerHashLoop MIN_INDEX_WIDTH MAX_ID_WIDTH ident"

subsection \<open>String identifiers\<close>

text \<open>
  A \<^verbatim>\<open>const char *\<close> is \<open>None\<close> for the null pointer and otherwise the characters found
  at the address; the string ends at the first NUL among them, or at the end of the list
  (where the terminating NUL stands).
\<close>

datatype allocationType = copyString | refString

datatype stringError = NullPointer | StringBadAlloc

record stringId =
  pStr :: "string option"
  allocType :: allocationType

definition NUL :: char where
  "NUL = CHR 0x00"

text \<open>The characters that \<^verbatim>\<open>strlen\<close> counts and \<^verbatim>\<open>memcpy\<close> copies (without the terminator).\<close>

definition cstring :: "string \<Rightarrow> string" where
  "cstring s = takeWhile (\<lambda>c. c \<noteq> NUL) s"

text \<open>
  The constructor. In copy mode \<^verbatim>\<open>strlen\<close> reads through the pointer, and \<^verbatim>\<open>new\<close> may
  throw.
\<close>

definition stringId_new :: "bool \<Rightarrow> string option \<Rightarrow> allocationType \<Rightarrow> stringError + stringId" where
  "stringId_new allocOk idIn typeIn =
     (if typeIn = copyString then
        (case idIn of
           None \<Rightarrow> Inl NullPointer
         | Some s \<Rightarrow>
             if allocOk then Inr \<lparr> pStr = Some (cstring s), allocType = typeIn \<rparr>
             else Inl StringBadAlloc)
      else Inr \<lparr> pStr = idIn, allocType = typeIn \<rparr>)"

definition fastHashPermutedIndexSpace :: "nat list" where
  "fastHashPermutedIndexSpace = [
 39,159,180,252, 71,  6, 13,164,232, 35,226,155, 98,120,154, 69,
157, 24,137, 29,147, 78,121, 85,112,  8,248,130, 55,117,190,160,
176,131,228, 64,211,106, 38, 27,140, 30, 88,210,227,104, 84, 77,
 75,107,169,138,195,184, 70, 90, 61,166,  7,244,165,108,219, 51,
  9,139,209, 40, 31,202, 58,179,116, 33,207,146, 76, 60,242,124,
254,197, 80,167,153,145,129,233,132, 48,246, 86,156,177, 36,187,
 45,  1, 96, 18, 19, 62,185,234, 99, 16,218, 95,128,224,123,253,
 42,109,  4,247, 72,  5,151,136,  0,152,148,127,204,133, 17, 14,
182,217, 54,199,119,174, 82, 57,215, 41,114,208,206,110,239, 23,
189, 15,  3, 22,188, 79,113,172, 28,  2,222, 21,251,225,237,105,
102, 32, 56,181,126, 83,230, 53,158, 52, 59,213,118,100, 67,142,
220,170,144,115,205, 26,125,168,249, 66,175, 97,255, 92,229, 91,
214,236,178,243, 46, 44,201,250,135,186,150,221,163,216,162, 43,
 11,101, 34, 37,194, 25, 50, 12, 87,198,173,240,193,171,143,231,
111,141,191,103, 74,245,223, 20,161,235,122, 63, 89,149, 73,238,
134, 68, 93,183,241, 81,196, 49,192, 65,212, 94,203, 10,200, 47]"

text \<open>
  The loop of \<^verbatim>\<open>stringId::hash\<close>: four accumulators, each advanced over every fourth
  character; it stops at the first NUL.
\<close>

fun hashLoop :: "nat \<Rightarrow> nat \<Rightarrow> nat \<Rightarrow> nat \<Rightarrow> string \<Rightarrow> nat \<times> nat \<times> nat \<times> nat" where
  "hashLoop h0 h1 h2 h3 [] = (h0, h1, h2, h3)"
| "hashLoop h0 h1 h2 h3 [c0] =
     (if c0 = NUL then (h0, h1, h2, h3)
      else (fastHashPermutedIndexSpace ! (h0 XOR of_char c0), h1, h2, h3))"
| "hashLoop h0 h1 h2 h3 [c0, c1] =
     (if c0 = NUL then (h0, h1, h2, h3)
      else let h0' = fastHashPermutedIndexSpace ! (h0 XOR of_char c0) in
      if c1 = NUL then (h0', h1, h2, h3)
      else (h0', fastHashPermutedIndexSpace ! (h1 XOR of_char c1), h2, h3))"
| "hashLoop h0 h1 h2 h3 [c0, c1, c2] =
     (if c0 = NUL then (h0, h1, h2, h3)
      else let h0' = fastHashPermutedIndexSpace ! (h0 XOR of_char c0) in
      if c1 = NUL then (h0', h1, h2, h3)
      else let h1' = fastHashPermutedIndexSpace ! (h1 XOR of_char c1) in
      if c2 = NUL then (h0', h1', h2, h3)
      else (h0', h1', fastHashPermutedIndexSpace ! (h2 XOR of_char c2), h3))"
| "hashLoop h0 h1 h2 h3 (c0 # c1 # c2 # c3 # s) =
     (if c0 = NUL then (h0, h1, h2, h3)
      else let h0' = fastHashPermutedIndexSpace ! (h0 XOR of_char c0) in
      if c1 = NUL then (h0', h1, h2, h3)
      else let h1' = fastHashPermutedIndexSpace ! (h1 XOR of_char c1) in
      if c2 = NUL then (h0', h1', h2, h3)
      else let h2' = fastHashPermutedIndexSpace ! (h2 XOR of_char c2) in
      if c3 = NUL then (h0', h1', h2', h3)
      else let h3' = fastHashPermutedIndexSpace ! (h3 XOR of_char c3) in
      hashLoop h0' h1' h2' h3' s)"

definition stringId_hash :: "stringId \<Rightarrow> nat" where
  "stringId_hash sid =
     (let stringIdMinIndexWidth = 8;
          stringIdMaxIndexWidth = 4
      in case pStr sid of
           None \<Rightarrow> 0
         | Some pUStr \<Rightarrow>
             (case hashLoop 0 0 0 0 pUStr of
                (h0, h1, h2, h3) \<Rightarrow>
                  integerHash stringIdMinIndexWidth stringIdMaxIndexWidth
                    (u32 (push_bit 24 h3) OR u32 (push_bit 16 h2) OR u32 (push_bit 8 h1) OR h0)))"

text \<open>
  \<^verbatim>\<open>strcmp (a, b) == 0\<close>, from the C library: the two strings agree character by character
  up to and including their terminators.
\<close>

fun strcmp_equal :: "string \<Rightarrow> string \<Rightarrow> bool" where
  "strcmp_equal [] [] = True"
| "strcmp_equal [] (b # bs) = (b = NUL)"
| "strcmp_equal (a # as) [] = (a = NUL)"
| "strcmp_equal (a # as) (b # bs) =
     (if a \<noteq> b then False else if a = NUL then True else strcmp_equal as bs)"

definition stringId_eq :: "stringId \<Rightarrow> stringId \<Rightarrow> bool" where
  "stringId_eq this idIn =
     (case (pStr this, pStr idIn) of
        (Some a, Some b) \<Rightarrow> strcmp_equal a b
      | _ \<Rightarrow> False)"

lemma hashLoop_cstring: "hashLoop h0 h1 h2 h3 (cstring s) = hashLoop h0 h1 h2 h3 s"
  by (induction h0 h1 h2 h3 s rule: hashLoop.induct) (simp_all add: cstring_def Let_def)

lemma strcmp_equal_cstring: "strcmp_equal a b = (cstring a = cstring b)"
  by (induction a b rule: strcmp_equal.induct) (auto simp: cstring_def)

lemma cstring_idem: "cstring (cstring s) = cstring s"
  by (simp add: cstring_def)

text \<open>
  C8. A string identifier made in copy mode and one made in reference mode from strings of
  equal content have the same hash and compare equal, in both directions; and two string
  identifiers of which one has no string never compare equal.
\<close>

theorem stringId_allocation_mode:
  assumes "cstring s1 = cstring s2"
  shows "(\<exists>a b. stringId_new True (Some s1) copyString = Inr a \<and>
            stringId_new allocOk (Some s2) refString = Inr b \<and>
            stringId_hash a = stringId_hash b \<and> stringId_eq a b \<and> stringId_eq b a) \<and>
         (\<forall>x y. pStr x = None \<or> pStr y = None \<longrightarrow> \<not> stringId_eq x y)"
proof -
  let ?a = "\<lparr> pStr = Some (cstring s1), allocType = copyString \<rparr>"
  let ?b = "\<lparr> pStr = Some s2, allocType = refString \<rparr>"
  have "hashLoop 0 0 0 0 (cstring s1) = hashLoop 0 0 0 0 s2"
    using assms hashLoop_cstring [of 0 0 0 0 s2] by simp
  then have h: "stringId_hash ?a = stringId_hash ?b" by (simp add: stringId_hash_def)
  have e: "stringId_eq ?a ?b" "stringId_eq ?b ?a"
    using assms by (simp_all add: stringId_eq_def strcmp_equal_cstring cstring_idem)
  have n: "\<forall>x y. pStr x = None \<or> pStr y = None \<longrightarrow> \<not> stringId_eq x y"
    by (auto simp: stringId_eq_def split: option.splits)
  have "stringId_new True (Some s1) copyString = Inr ?a"
    "stringId_new allocOk (Some s2) refString = Inr ?b" by (simp_all add: stringId_new_def)
  then show ?thesis using h e n by blast
qed

lemma stringId_hash_abc: "stringId_hash \<lparr> pStr = Some ''abc'', allocType = refString \<rparr> = 1505281"
proof -
  have "hashLoop 0 0 0 0 ''abc'' = (1, 96, 18, 0)"
    by (simp add: NUL_def fastHashPermutedIndexSpace_def)
  then show ?thesis
    by (simp add: stringId_hash_def integerHash_def integerHashLoop.simps u32_def
        push_bit_eq_mult drop_bit_eq_div)
qed

theorem stringId_allocation_mode_witness:
  "stringId_new True (Some (''abc'' @ [NUL, CHR ''x''])) copyString =
     Inr \<lparr> pStr = Some ''abc'', allocType = copyString \<rparr> \<and>
   stringId_new True (Some ''abc'') refString = Inr \<lparr> pStr = Some ''abc'', allocType = refString \<rparr> \<and>
   stringId_hash \<lparr> pStr = Some ''abc'', allocType = copyString \<rparr> = 1505281 \<and>
   stringId_hash \<lparr> pStr = Some ''abc'', allocType = refString \<rparr> = 1505281 \<and>
   stringId_eq \<lparr> pStr = Some ''abc'', allocType = copyString \<rparr>
     \<lparr> pStr = Some ''abc'', allocType = refString \<rparr> \<and>
   \<not> stringId_eq \<lparr> pStr = None, allocType = refString \<rparr> \<lparr> pStr = None, allocType = refString \<rparr>"
proof -
  have c: "cstring (''abc'' @ [NUL, CHR ''x'']) = cstring ''abc''"
    by (simp add: cstring_def NUL_def)
  have p: "pStr \<lparr> pStr = None, allocType = refString \<rparr> = None" by simp
  have a: "stringId_new True (Some (''abc'' @ [NUL, CHR ''x''])) copyString =
     Inr \<lparr> pStr = Some ''abc'', allocType = copyString \<rparr>"
    "stringId_new True (Some ''abc'') refString = Inr \<lparr> pStr = Some ''abc'', allocType = refString \<rparr>"
    by (simp_all add: stringId_new_def cstring_def NUL_def)
  from stringId_allocation_mode [OF c, of True] a p stringId_hash_abc
  show ?thesis by auto
qed

section \<open>The chronological table\<close>

text \<open>
  \<^verbatim>\<open>chronIntId\<close> is \<^verbatim>\<open>intId<unsigned, 8u, sizeof(unsigned)*CHAR_BIT>\<close>: its hash is
  \<^verbatim>\<open>integerHash\<close> with the widths 8 and 32, its \<^verbatim>\<open>==\<close> compares the integers.
\<close>

definition chronIntId_hash :: "32 word \<Rightarrow> nat" where
  "chronIntId_hash ident = integerHash 8 32 (unat ident)"

definition intId_eq :: "32 word \<Rightarrow> 32 word \<Rightarrow> bool" where
  "intId_eq this idIn = (this = idIn)"

record 'v chronIntIdResTable =
  table :: "(32 word, 'v) resTable"
  allocId :: "32 word"

definition chronIntIdResTable_new :: "'v chronIntIdResTable" where
  "chronIntIdResTable_new = \<lparr> table = resTable_new, allocId = 1 \<rparr>"

text \<open>
  \<^verbatim>\<open>chronIntIdResTable::add\<close>: the do-while loop gives the item the next identifier and
  tries to install it until \<^verbatim>\<open>resTable::add\<close> returns 0. \<open>allocOk n\<close> is the outcome of
  the allocation of the \<open>n\<close>-th try. The result is \<open>None\<close> when the loop does not end,
  and otherwise the identifier given to the item (or the exception) with the table after
  the call.
\<close>

partial_function (option) chronAdd ::
  "(nat \<Rightarrow> bool) \<Rightarrow> 'v \<Rightarrow> 'v chronIntIdResTable
     \<Rightarrow> ((error + 32 word) \<times> 'v chronIntIdResTable) option" where
  "chronAdd allocOk item ct =
     (let newId = allocId ct;
          ct1 = ct \<lparr> allocId := allocId ct + 1 \<rparr>
      in case add chronIntId_hash intId_eq (allocOk 0) (newId, item) (table ct1) of
           Inl e \<Rightarrow> Some (Inl e, ct1)
         | Inr (status, t') \<Rightarrow>
             if status \<noteq> 0 then chronAdd (\<lambda>n. allocOk (Suc n)) item (ct1 \<lparr> table := t' \<rparr>)
             else Some (Inr newId, ct1 \<lparr> table := t' \<rparr>))"

text \<open>A series of calls, each item with the allocation outcomes of its call.\<close>

fun chronAddMany ::
  "('v \<times> (nat \<Rightarrow> bool)) list \<Rightarrow> 'v chronIntIdResTable
     \<Rightarrow> ((error + 32 word) list \<times> 'v chronIntIdResTable) option" where
  "chronAddMany [] ct = Some ([], ct)"
| "chronAddMany (call # calls) ct =
     (case chronAdd (snd call) (fst call) ct of
        None \<Rightarrow> None
      | Some (r, ct1) \<Rightarrow>
          (case chronAddMany calls ct1 of
             None \<Rightarrow> None
           | Some (rs, ct2) \<Rightarrow> Some (r # rs, ct2)))"

lemma intId_eq_equality: "intId_eq x y = (x = y)"
  by (simp add: intId_eq_def)

lemma chronAdd_probe:
  assumes "reachable chronIntId_hash intId_eq (table ct)" "nInUse (table ct) < 1073741824"
    "pTable (table ct) \<noteq> None \<or> allocOk 0"
    "\<forall>j<k. allocId ct + of_nat j \<in> fst ` set (entries (table ct))"
    "allocId ct + of_nat k \<notin> fst ` set (entries (table ct))"
  shows "\<exists>ct'. chronAdd allocOk item ct = Some (Inr (allocId ct + of_nat k), ct') \<and>
           reachable chronIntId_hash intId_eq (table ct') \<and>
           mset (entries (table ct')) =
             add_mset (allocId ct + of_nat k, item) (mset (entries (table ct))) \<and>
           allocId ct' = allocId ct + of_nat k + 1 \<and>
           nInUse (table ct') = nInUse (table ct) + 1 \<and> pTable (table ct') \<noteq> None"
  using assms
proof (induction k arbitrary: ct allocOk)
  case 0
  let ?H = chronIntId_hash
  have e: "intId_eq = (=)" by (intro ext) (simp add: intId_eq_def)
  have i: "tableInv ?H (table ct)" using intId_eq_equality "0.prems"(1) by (rule reachable_inv)
  have ab: "fst (allocId ct, item) \<notin> fst ` set (entries (table ct))" using "0.prems"(5) by simp
  from add_result [OF i "0.prems"(2,3), of "(allocId ct, item)"] ab obtain st t' where
    a: "add ?H (=) (allocOk 0) (allocId ct, item) (table ct) = Inr (st, t')" and
    r: "pTable t' \<noteq> None" "st = 0"
       "mset (entries t') = add_mset (allocId ct, item) (mset (entries (table ct)))"
       "nInUse t' = nInUse (table ct) + 1" by blast
  have a': "add ?H intId_eq (allocOk 0) (allocId ct, item) (table ct) = Inr (0, t')"
    using a r(2) unfolding e by simp
  have re: "reachable ?H intId_eq t'" using "0.prems"(1,2) a' by (rule reachable.added)
  have "chronAdd allocOk item ct = Some (Inr (allocId ct), ct \<lparr> allocId := allocId ct + 1, table := t' \<rparr>)"
    by (subst chronAdd.simps) (simp add: a' Let_def)
  then show ?case using re r by simp
next
  case (Suc k)
  let ?H = chronIntId_hash
  have e: "intId_eq = (=)" by (intro ext) (simp add: intId_eq_def)
  have i: "tableInv ?H (table ct)" using intId_eq_equality Suc.prems(1) by (rule reachable_inv)
  have "allocId ct + of_nat 0 \<in> fst ` set (entries (table ct))" using Suc.prems(4) by blast
  then have pr: "fst (allocId ct, item) \<in> fst ` set (entries (table ct))" by simp
  from add_result [OF i Suc.prems(2,3), of "(allocId ct, item)"] pr obtain st t' where
    a: "add ?H (=) (allocOk 0) (allocId ct, item) (table ct) = Inr (st, t')" and
    r: "pTable t' \<noteq> None" "st = - 1" "mset (entries t') = mset (entries (table ct))"
       "nInUse t' = nInUse (table ct)" by blast
  have a': "add ?H intId_eq (allocOk 0) (allocId ct, item) (table ct) = Inr (- 1, t')"
    using a r(2) unfolding e by simp
  have re: "reachable ?H intId_eq t'" using Suc.prems(1,2) a' by (rule reachable.added)
  let ?ct1 = "ct \<lparr> allocId := allocId ct + 1, table := t' \<rparr>"
  have "set_mset (mset (entries t')) = set_mset (mset (entries (table ct)))" using r(3) by simp
  then have s: "set (entries t') = set (entries (table ct))" by simp
  have c: "chronAdd allocOk item ct = chronAdd (\<lambda>n. allocOk (Suc n)) item ?ct1"
    by (subst chronAdd.simps) (simp add: a' Let_def)
  have p1: "reachable ?H intId_eq (table ?ct1)" using re by simp
  have p2: "nInUse (table ?ct1) < 1073741824" using r(4) Suc.prems(2) by simp
  have p3: "pTable (table ?ct1) \<noteq> None \<or> allocOk (Suc 0)" using r(1) by simp
  have p4: "\<forall>j<k. allocId ?ct1 + of_nat j \<in> fst ` set (entries (table ?ct1))"
  proof (intro allI impI)
    fix j assume "j < k"
    then have "Suc j < Suc k" by simp
    with Suc.prems(4) have "allocId ct + of_nat (Suc j) \<in> fst ` set (entries (table ct))"
      by blast
    then show "allocId ?ct1 + of_nat j \<in> fst ` set (entries (table ?ct1))"
      using s by (simp add: add.assoc)
  qed
  have p5: "allocId ?ct1 + of_nat k \<notin> fst ` set (entries (table ?ct1))"
    using Suc.prems(5) s by (simp add: add.assoc)
  from Suc.IH [of ?ct1 "\<lambda>n. allocOk (Suc n)", OF p1 p2 p3 p4 p5] obtain ct' where
    "chronAdd (\<lambda>n. allocOk (Suc n)) item ?ct1 = Some (Inr (allocId ?ct1 + of_nat k), ct')"
    "reachable ?H intId_eq (table ct')"
    "mset (entries (table ct')) = add_mset (allocId ?ct1 + of_nat k, item) (mset (entries (table ?ct1)))"
    "allocId ct' = allocId ?ct1 + of_nat k + 1"
    "nInUse (table ct') = nInUse (table ?ct1) + 1" "pTable (table ct') \<noteq> None" by blast
  then show ?case using c r(3,4) by (simp add: add.assoc)
qed

lemma of_nat_32_less:
  assumes "m < n" "n < 4294967296"
  shows "(of_nat m :: 32 word) < of_nat n"
proof -
  have "take_bit 32 m = m" "take_bit 32 n = n"
    using assms by (simp_all add: take_bit_nat_eq_self)
  then show ?thesis using assms(1) by (simp add: of_nat_word_less_iff)
qed

lemma ids_increasing:
  assumes "n < 4294967295"
  shows "sorted_wrt (<) (map of_nat [1 ..< Suc n] :: 32 word list)"
proof -
  have "sorted_wrt (\<lambda>x y. (of_nat x :: 32 word) < of_nat y) [1 ..< Suc n]"
  proof (rule sorted_wrt_mono_rel [of _ "(<)"])
    show "sorted_wrt (<) [1 ..< Suc n]" by (rule sorted_wrt_upt)
  next
    fix x y assume "x \<in> set [1 ..< Suc n]" "y \<in> set [1 ..< Suc n]" "x < y"
    then have "x < y" "y < 4294967296" using assms by auto
    then show "(of_nat x :: 32 word) < of_nat y" by (rule of_nat_32_less)
  qed
  then show ?thesis by (simp add: sorted_wrt_map)
qed

lemma free_id:
  fixes t :: "(32 word, 'v) resTable"
  assumes "tableInv H t"
  shows "\<exists>k. a + of_nat k \<notin> fst ` set (entries t) \<and>
             (\<forall>j<k. a + of_nat j \<in> fst ` set (entries t))"
proof -
  let ?S = "fst ` set (entries t)"
  have "card ?S \<le> card (set (entries t))" by (intro card_image_le) simp
  also have "\<dots> \<le> length (entries t)" by (rule card_length)
  also have "\<dots> = nInUse t" using inv_nInUse_entries [OF assms] by simp
  also have "\<dots> \<le> 1073741824"
  proof (cases "pTable t")
    case None
    then show ?thesis using inv_None [OF assms] by simp
  next
    case (Some tbl)
    then show ?thesis using invD(5) [OF assms] by simp
  qed
  finally have "card ?S < card (UNIV :: 32 word set)" by (simp add: card_word)
  then have "?S \<noteq> UNIV" by auto
  then obtain w where w: "w \<notin> ?S" by blast
  have "a + of_nat (unat (w - a)) = w" by simp
  then have ex: "\<exists>k. a + of_nat k \<notin> ?S" using w by metis
  let ?k = "LEAST k. a + of_nat k \<notin> ?S"
  have "a + of_nat ?k \<notin> ?S" using ex by (rule LeastI_ex)
  moreover have "\<forall>j<?k. a + of_nat j \<in> ?S" using not_less_Least by blast
  ultimately show ?thesis by blast
qed

lemma lookup_after_insert:
  assumes "tableInv H t" "tableInv H t'" "mset (entries t') = add_mset x (mset (entries t))"
  shows "lookup H (=) (fst x) t' = Some x"
    and "i \<noteq> fst x \<Longrightarrow> lookup H (=) i t' = lookup H (=) i t"
proof -
  have "set_mset (mset (entries t')) = set_mset (add_mset x (mset (entries t)))"
    using assms(3) by simp
  then have s: "set (entries t') = insert x (set (entries t))" by simp
  show "lookup H (=) (fst x) t' = Some x" using lookup_entries [OF assms(2)] s by simp
  show "lookup H (=) i t' = lookup H (=) i t" if "i \<noteq> fst x"
  proof (rule option_eqI)
    fix y
    show "(lookup H (=) i t' = Some y) = (lookup H (=) i t = Some y)"
      using that s lookup_entries [OF assms(1)] lookup_entries [OF assms(2)] by auto
  qed
qed

lemma chronAdd_first_free:
  assumes "reachable chronIntId_hash intId_eq (table ct)" "nInUse (table ct) < 1073741824"
    "pTable (table ct) \<noteq> None \<or> allocOk 0"
  shows "\<exists>k ct'. chronAdd allocOk item ct = Some (Inr (allocId ct + of_nat k), ct') \<and>
           (\<forall>j<k. lookup chronIntId_hash intId_eq (allocId ct + of_nat j) (table ct) \<noteq> None) \<and>
           lookup chronIntId_hash intId_eq (allocId ct + of_nat k) (table ct) = None \<and>
           lookup chronIntId_hash intId_eq (allocId ct + of_nat k) (table ct') =
             Some (allocId ct + of_nat k, item) \<and>
           (\<forall>i. i \<noteq> allocId ct + of_nat k \<longrightarrow>
              lookup chronIntId_hash intId_eq i (table ct') =
              lookup chronIntId_hash intId_eq i (table ct)) \<and>
           allocId ct' = allocId ct + of_nat k + 1 \<and>
           numEntriesInstalled (table ct') = numEntriesInstalled (table ct) + 1 \<and>
           reachable chronIntId_hash intId_eq (table ct')"
proof -
  let ?H = chronIntId_hash
  have e: "intId_eq = (=)" by (intro ext) (simp add: intId_eq_def)
  have i: "tableInv ?H (table ct)" using intId_eq_equality assms(1) by (rule reachable_inv)
  from free_id [OF i, of "allocId ct"] obtain k where
    k: "allocId ct + of_nat k \<notin> fst ` set (entries (table ct))"
       "\<forall>j<k. allocId ct + of_nat j \<in> fst ` set (entries (table ct))" by blast
  from chronAdd_probe [where ct = ct and allocOk = allocOk and k = k and item = item,
      OF assms k(2,1)] obtain ct' where
    c: "chronAdd allocOk item ct = Some (Inr (allocId ct + of_nat k), ct')" and
    r: "reachable ?H intId_eq (table ct')" and
    m: "mset (entries (table ct')) =
          add_mset (allocId ct + of_nat k, item) (mset (entries (table ct)))" and
    a: "allocId ct' = allocId ct + of_nat k + 1" and
    n: "nInUse (table ct') = nInUse (table ct) + 1" by blast
  have i': "tableInv ?H (table ct')" using intId_eq_equality r by (rule reachable_inv)
  have l1: "\<forall>j<k. lookup ?H (=) (allocId ct + of_nat j) (table ct) \<noteq> None"
    using k(2) lookup_resident_iff [OF i] by blast
  have l2: "lookup ?H (=) (allocId ct + of_nat k) (table ct) = None"
    using k(1) lookup_resident_iff [OF i, of "allocId ct + of_nat k"] by blast
  have l3: "lookup ?H (=) (allocId ct + of_nat k) (table ct') = Some (allocId ct + of_nat k, item)"
    using lookup_after_insert(1) [OF i i' m] by simp
  have l4: "\<forall>i. i \<noteq> allocId ct + of_nat k \<longrightarrow>
              lookup ?H (=) i (table ct') = lookup ?H (=) i (table ct)"
    using lookup_after_insert(2) [OF i i' m] by simp
  show ?thesis
    unfolding e using c l1 l2 l3 l4 a n r [unfolded e] by (auto simp: numEntriesInstalled_def)
qed

lemma of_nat_32_fresh:
  assumes "j < 4294967295"
  shows "(of_nat (Suc j) :: 32 word) \<notin> of_nat ` {1..j}"
proof
  assume "(of_nat (Suc j) :: 32 word) \<in> of_nat ` {1..j}"
  then obtain m where m: "m \<in> {1..j}" "(of_nat (Suc j) :: 32 word) = of_nat m" by blast
  have "take_bit LENGTH(32) (Suc j) = take_bit LENGTH(32) m"
    using m(2) by (rule word_of_nat_eq_iff [THEN iffD1])
  then have "take_bit 32 (Suc j) = take_bit 32 m" by simp
  moreover have "take_bit 32 (Suc j) = Suc j" "take_bit 32 m = m"
    using assms m(1) by (simp_all add: take_bit_nat_eq_self)
  ultimately show False using m(1) by simp
qed

lemma chronAddMany_fresh:
  assumes "reachable chronIntId_hash intId_eq (table ct)" "allocId ct = of_nat (Suc j)"
    "fst ` set (entries (table ct)) = of_nat ` {1..j}" "nInUse (table ct) = j"
    "j + length calls < 1073741824"
    "pTable (table ct) \<noteq> None \<or> calls = [] \<or> snd (hd calls) 0"
  shows "\<exists>ct'. chronAddMany calls ct =
             Some (map (\<lambda>n. Inr (of_nat n)) [Suc j ..< Suc (j + length calls)], ct') \<and>
           numEntriesInstalled (table ct') = j + length calls"
  using assms
proof (induction calls arbitrary: ct j)
  case Nil
  then show ?case by (simp add: numEntriesInstalled_def)
next
  case (Cons call calls)
  have j: "j < 4294967295" using Cons.prems(5) by simp
  have n: "nInUse (table ct) < 1073741824" using Cons.prems(4,5) by simp
  have p: "pTable (table ct) \<noteq> None \<or> snd call 0" using Cons.prems(6) by simp
  have f: "allocId ct + of_nat 0 \<notin> fst ` set (entries (table ct))"
    using of_nat_32_fresh [OF j] Cons.prems(2,3) by simp
  have g: "\<forall>i<0::nat. allocId ct + of_nat i \<in> fst ` set (entries (table ct))" by simp
  from chronAdd_probe [where ct = ct and allocOk = "snd call" and k = 0 and item = "fst call",
      OF Cons.prems(1) n p g f]
  obtain ct1 where
    c: "chronAdd (snd call) (fst call) ct = Some (Inr (allocId ct), ct1)" and
    r: "reachable chronIntId_hash intId_eq (table ct1)" and
    m: "mset (entries (table ct1)) = add_mset (allocId ct, fst call) (mset (entries (table ct)))" and
    a: "allocId ct1 = allocId ct + 1" and
    u: "nInUse (table ct1) = nInUse (table ct) + 1" and
    s: "pTable (table ct1) \<noteq> None" by auto
  have "set_mset (mset (entries (table ct1))) =
        set_mset (add_mset (allocId ct, fst call) (mset (entries (table ct))))" using m by simp
  then have "set (entries (table ct1)) = insert (allocId ct, fst call) (set (entries (table ct)))"
    by simp
  then have "fst ` set (entries (table ct1)) = insert (of_nat (Suc j)) (of_nat ` {1..j})"
    using Cons.prems(2,3) by simp
  also have "\<dots> = of_nat ` {1..Suc j}" by (simp add: atLeastAtMostSuc_conv)
  finally have q3: "fst ` set (entries (table ct1)) = of_nat ` {1..Suc j}" .
  have q2: "allocId ct1 = of_nat (Suc (Suc j))" using a Cons.prems(2) by simp
  have q4: "nInUse (table ct1) = Suc j" using u Cons.prems(4) by simp
  have q5: "Suc j + length calls < 1073741824" using Cons.prems(5) by simp
  have q6: "pTable (table ct1) \<noteq> None \<or> calls = [] \<or> snd (hd calls) 0" using s by simp
  from Cons.IH [OF r q2 q3 q4 q5 q6] obtain ct' where
    d: "chronAddMany calls ct1 =
          Some (map (\<lambda>n. Inr (of_nat n)) [Suc (Suc j) ..< Suc (Suc j + length calls)], ct')" and
    e: "numEntriesInstalled (table ct') = Suc j + length calls" by blast
  have "Suc j < Suc (j + length (call # calls))" by simp
  then have "[Suc j ..< Suc (j + length (call # calls))] =
        Suc j # [Suc (Suc j) ..< Suc (j + length (call # calls))]"
    by (rule upt_conv_Cons)
  moreover have "Suc (j + length (call # calls)) = Suc (Suc j + length calls)" by simp
  ultimately have "[Suc j ..< Suc (j + length (call # calls))] =
        Suc j # [Suc (Suc j) ..< Suc (Suc j + length calls)]"
    by (simp only:)
  then have "map (\<lambda>n. Inr (of_nat n)) [Suc j ..< Suc (j + length (call # calls))] =
        (Inr (allocId ct) :: error + 32 word) #
          map (\<lambda>n. Inr (of_nat n)) [Suc (Suc j) ..< Suc (Suc j + length calls)]"
    using Cons.prems(2) by simp
  then show ?case using c d e by simp
qed

text \<open>
  C7. On a new chronological table a series of fewer than \<open>2 ^ 30\<close> calls of \<^verbatim>\<open>add\<close>,
  the first of which can allocate the table, gives the items the identifiers 1, 2, 3 and
  so on, which are strictly increasing. On any reachable table with fewer than \<open>2 ^ 30\<close>
  entries and any value of the counter, \<^verbatim>\<open>add\<close> returns: it gives the item the first
  identifier, counting from the counter and wrapping around at \<open>2 ^ 32\<close>, that is not
  resident; the identifiers tried before are all resident, and every entry that was
  resident is still found, unchanged.
\<close>

theorem chronological_ids:
  "(length calls < 1073741824 \<and> (calls \<noteq> [] \<longrightarrow> snd (hd calls) 0) \<longrightarrow>
      (\<exists>ct'. chronAddMany calls chronIntIdResTable_new =
                Some (map (\<lambda>n. Inr (of_nat n)) [1 ..< Suc (length calls)], ct') \<and>
              numEntriesInstalled (table ct') = length calls) \<and>
      sorted_wrt (<) (map of_nat [1 ..< Suc (length calls)] :: 32 word list)) \<and>
   (reachable chronIntId_hash intId_eq (table ct) \<and> nInUse (table ct) < 1073741824 \<and>
    (pTable (table ct) \<noteq> None \<or> allocOk 0) \<longrightarrow>
      (\<exists>k ct'. chronAdd allocOk item ct = Some (Inr (allocId ct + of_nat k), ct') \<and>
         (\<forall>j<k. lookup chronIntId_hash intId_eq (allocId ct + of_nat j) (table ct) \<noteq> None) \<and>
         lookup chronIntId_hash intId_eq (allocId ct + of_nat k) (table ct) = None \<and>
         lookup chronIntId_hash intId_eq (allocId ct + of_nat k) (table ct') =
           Some (allocId ct + of_nat k, item) \<and>
         (\<forall>i. i \<noteq> allocId ct + of_nat k \<longrightarrow>
            lookup chronIntId_hash intId_eq i (table ct') =
            lookup chronIntId_hash intId_eq i (table ct)) \<and>
         allocId ct' = allocId ct + of_nat k + 1 \<and>
         numEntriesInstalled (table ct') = numEntriesInstalled (table ct) + 1 \<and>
         reachable chronIntId_hash intId_eq (table ct')))"
proof (intro conjI impI)
  assume a: "length calls < 1073741824 \<and> (calls \<noteq> [] \<longrightarrow> snd (hd calls) 0)"
  let ?new = "chronIntIdResTable_new :: 'a chronIntIdResTable"
  have r: "reachable chronIntId_hash intId_eq (table ?new)"
    by (simp add: chronIntIdResTable_new_def reachable.constructed)
  have "\<exists>ct'. chronAddMany calls ?new =
             Some (map (\<lambda>n. Inr (of_nat n)) [Suc 0 ..< Suc (0 + length calls)], ct') \<and>
           numEntriesInstalled (table ct') = 0 + length calls"
    using r
  proof (rule chronAddMany_fresh)
    show "allocId ?new = of_nat (Suc 0)" by (simp add: chronIntIdResTable_new_def)
    show "fst ` set (entries (table ?new)) = of_nat ` {1..0}"
      by (simp add: chronIntIdResTable_new_def entries_def resTable_new_def)
    show "nInUse (table ?new) = 0" by (simp add: chronIntIdResTable_new_def resTable_new_def)
    show "0 + length calls < 1073741824" using a by simp
    show "pTable (table ?new) \<noteq> None \<or> calls = [] \<or> snd (hd calls) 0" using a by blast
  qed
  then show "\<exists>ct'. chronAddMany calls ?new =
                Some (map (\<lambda>n. Inr (of_nat n)) [1 ..< Suc (length calls)], ct') \<and>
              numEntriesInstalled (table ct') = length calls" by simp
  show "sorted_wrt (<) (map of_nat [1 ..< Suc (length calls)] :: 32 word list)"
    using a by (intro ids_increasing) simp
next
  assume "reachable chronIntId_hash intId_eq (table ct) \<and> nInUse (table ct) < 1073741824 \<and>
    (pTable (table ct) \<noteq> None \<or> allocOk 0)"
  then show "\<exists>k ct'. chronAdd allocOk item ct = Some (Inr (allocId ct + of_nat k), ct') \<and>
         (\<forall>j<k. lookup chronIntId_hash intId_eq (allocId ct + of_nat j) (table ct) \<noteq> None) \<and>
         lookup chronIntId_hash intId_eq (allocId ct + of_nat k) (table ct) = None \<and>
         lookup chronIntId_hash intId_eq (allocId ct + of_nat k) (table ct') =
           Some (allocId ct + of_nat k, item) \<and>
         (\<forall>i. i \<noteq> allocId ct + of_nat k \<longrightarrow>
            lookup chronIntId_hash intId_eq i (table ct') =
            lookup chronIntId_hash intId_eq i (table ct)) \<and>
         allocId ct' = allocId ct + of_nat k + 1 \<and>
         numEntriesInstalled (table ct') = numEntriesInstalled (table ct) + 1 \<and>
         reachable chronIntId_hash intId_eq (table ct')"
    using chronAdd_first_free [of ct allocOk item] by blast
qed

lemma chronIntId_hash_values:
  "chronIntId_hash 4294967295 = 4278255360" "chronIntId_hash 0 = 0" "chronIntId_hash 1 = 1"
  by (simp_all add: chronIntId_hash_def integerHash_def integerHashLoop.simps drop_bit_eq_div)

definition opsWrap :: "(32 word, string) operation list" where
  "opsWrap = [SetTableSize 16 True, Add (4294967295, ''x'') True, Add (0, ''y'') True]"

definition tWrap :: "(32 word, string) resTable" where
  "tWrap = \<lparr> pTable = Some [[(0, ''y''), (4294967295, ''x'')], [], [], [], [], [], [], [], [], [],
                            [], [], [], [], [], []],
             nextSplitIndex = 0, hashIxMask = 7, hashIxSplitMask = 15, nBitsHashIxSplitMask = 4,
             logBaseTwoTableSize = 4, nInUse = 2 \<rparr>"

lemma run_opsWrap: "fst (run chronIntId_hash intId_eq opsWrap) = tWrap"
  by (simp add: opsWrap_def tWrap_def eval_table chronIntId_hash_values intId_eq_def)

lemma guarded_opsWrap: "guarded chronIntId_hash intId_eq opsWrap (resTable_new, Map.empty)"
  by (simp add: opsWrap_def eval_table chronIntId_hash_values intId_eq_def)

lemma reachable_tWrap: "reachable chronIntId_hash intId_eq tWrap"
  using reachable_run [OF guarded_opsWrap] by (simp add: run_opsWrap)

lemma lookup_tWrap:
  "lookup chronIntId_hash intId_eq 4294967295 tWrap = Some (4294967295, ''x'')"
  "lookup chronIntId_hash intId_eq 0 tWrap = Some (0, ''y'')"
  "lookup chronIntId_hash intId_eq 1 tWrap = None"
  by (simp_all add: tWrap_def lookup_def hash_def Let_def chronIntId_hash_values intId_eq_def)

lemma wrap32: "(4294967296 :: 32 word) = 0" "(4294967297 :: 32 word) = 1"
  by simp_all

theorem chronological_ids_witness:
  "(\<exists>ct'. chronAddMany [(''a'', \<lambda>n. True), (''b'', \<lambda>n. True), (''c'', \<lambda>n. n \<noteq> 0)]
             chronIntIdResTable_new = Some ([Inr 1, Inr 2, Inr 3], ct') \<and>
           numEntriesInstalled (table ct') = 3) \<and>
   (\<exists>ct'. chronAdd (\<lambda>n. True) ''z'' \<lparr> table = tWrap, allocId = 4294967295 \<rparr> = Some (Inr 1, ct') \<and>
           lookup chronIntId_hash intId_eq 4294967295 (table ct') = Some (4294967295, ''x'') \<and>
           lookup chronIntId_hash intId_eq 0 (table ct') = Some (0, ''y'') \<and>
           lookup chronIntId_hash intId_eq 1 (table ct') = Some (1, ''z'') \<and>
           allocId ct' = 2)"
proof -
  let ?calls = "[(''a'', \<lambda>n. True), (''b'', \<lambda>n. True), (''c'', \<lambda>n. n \<noteq> 0)] :: (string \<times> (nat \<Rightarrow> bool)) list"
  let ?ct = "\<lparr> table = tWrap, allocId = 4294967295 \<rparr>"
  note th = chronological_ids [where calls = ?calls and ct = ?ct and allocOk = "\<lambda>n. True"
      and item = "''z''"]
  have u: "[1 ..< Suc (length ?calls)] = [1, 2, 3]" by (simp add: upt_conv_Cons)
  have "length ?calls < 1073741824 \<and> (?calls \<noteq> [] \<longrightarrow> snd (hd ?calls) 0)" by simp
  with th have A: "\<exists>ct'. chronAddMany ?calls chronIntIdResTable_new =
      Some (map (\<lambda>n. Inr (of_nat n)) [1 ..< Suc (length ?calls)], ct') \<and>
      numEntriesInstalled (table ct') = length ?calls" by blast
  have "reachable chronIntId_hash intId_eq (table ?ct) \<and> nInUse (table ?ct) < 1073741824 \<and>
    (pTable (table ?ct) \<noteq> None \<or> True)" using reachable_tWrap by (simp add: tWrap_def)
  with th obtain k ct' where
    c: "chronAdd (\<lambda>n. True) ''z'' ?ct = Some (Inr (allocId ?ct + of_nat k), ct')" and
    l1: "\<forall>j<k. lookup chronIntId_hash intId_eq (allocId ?ct + of_nat j) (table ?ct) \<noteq> None" and
    l2: "lookup chronIntId_hash intId_eq (allocId ?ct + of_nat k) (table ?ct) = None" and
    l3: "lookup chronIntId_hash intId_eq (allocId ?ct + of_nat k) (table ct') =
           Some (allocId ?ct + of_nat k, ''z'')" and
    l4: "\<forall>i. i \<noteq> allocId ?ct + of_nat k \<longrightarrow>
            lookup chronIntId_hash intId_eq i (table ct') =
            lookup chronIntId_hash intId_eq i (table ?ct)" and
    a: "allocId ct' = allocId ?ct + of_nat k + 1" by blast
  have k: "k = 2"
  proof (rule ccontr)
    assume "k \<noteq> 2"
    then consider "k = 0" | "k = 1" | "2 < k" by linarith
    then show False
    proof cases
      case 1
      then show ?thesis using l2 lookup_tWrap(1) by (simp add: wrap32)
    next
      case 2
      then show ?thesis using l2 lookup_tWrap(2) by (simp add: wrap32)
    next
      case 3
      then have "lookup chronIntId_hash intId_eq (allocId ?ct + of_nat 2) (table ?ct) \<noteq> None"
        using l1 by blast
      then show ?thesis using lookup_tWrap(3) by (simp add: wrap32)
    qed
  qed
  have B: "chronAdd (\<lambda>n. True) ''z'' ?ct = Some (Inr 1, ct')" using c k by (simp add: wrap32)
  have C: "lookup chronIntId_hash intId_eq 1 (table ct') = Some (1, ''z'')" using l3 k by (simp add: wrap32)
  have "lookup chronIntId_hash intId_eq 4294967295 (table ct') =
        lookup chronIntId_hash intId_eq 4294967295 (table ?ct)"
    "lookup chronIntId_hash intId_eq 0 (table ct') = lookup chronIntId_hash intId_eq 0 (table ?ct)"
    using l4 k by (simp_all add: wrap32)
  then have D: "lookup chronIntId_hash intId_eq 4294967295 (table ct') = Some (4294967295, ''x'')"
    "lookup chronIntId_hash intId_eq 0 (table ct') = Some (0, ''y'')"
    using lookup_tWrap by simp_all
  have E: "allocId ct' = 2" using a k by (simp add: wrap32)
  show ?thesis using A B C D E unfolding u by auto
qed

end
